theory Spec2Isabelle
  imports Complex_Main "HOL-Library.Multiset"
begin

section \<open>JavaScript numbers\<close>

text \<open>
  The detector of \<^verbatim>\<open>src/public/shapeDetector.js\<close> computes with JavaScript numbers.
  A number is idealised here as an exact real, extended with the two infinities and NaN, the
  values a division by zero produces. Outside the luminance of a pixel, where every
  operation is rounded as a double, rounding, overflow and the sign of zero
  are not modelled: every divisor of this program is a product \<open>p * p\<close>, a
  \<^verbatim>\<open>Math.abs\<close> or a \<^verbatim>\<open>Math.sqrt\<close>, hence \<open>+0\<close> when it is zero. The
  coordinates of the points are integers, on which the sums and products of the area and
  of \<^verbatim>\<open>isCounterClockwise\<close> are exact in doubles too.
\<close>

datatype jsnum = Num real | PInf | NInf | NaN

text \<open>\<^verbatim>\<open>a > b\<close>: false as soon as one side is NaN.\<close>

fun js_gt :: "jsnum \<Rightarrow> jsnum \<Rightarrow> bool" where
  "js_gt (Num a) (Num b) = (a > b)"
| "js_gt PInf (Num b) = True"
| "js_gt PInf NInf = True"
| "js_gt (Num a) NInf = True"
| "js_gt _ _ = False"

text \<open>\<^verbatim>\<open>a - b\<close>.\<close>

fun js_sub :: "jsnum \<Rightarrow> jsnum \<Rightarrow> jsnum" where
  "js_sub NaN _ = NaN"
| "js_sub _ NaN = NaN"
| "js_sub (Num a) (Num b) = Num (a - b)"
| "js_sub PInf PInf = NaN"
| "js_sub NInf NInf = NaN"
| "js_sub PInf _ = PInf"
| "js_sub NInf _ = NInf"
| "js_sub (Num a) PInf = NInf"
| "js_sub (Num a) NInf = PInf"

text \<open>\<^verbatim>\<open>a / b\<close>: a finite non-zero number over zero is an infinity, zero over zero is NaN.\<close>

fun js_div :: "jsnum \<Rightarrow> jsnum \<Rightarrow> jsnum" where
  "js_div NaN _ = NaN"
| "js_div _ NaN = NaN"
| "js_div (Num a) (Num b) =
     (if b \<noteq> 0 then Num (a / b)
      else if a > 0 then PInf else if a < 0 then NInf else NaN)"
| "js_div (Num a) _ = Num 0"
| "js_div PInf (Num b) = (if b \<ge> 0 then PInf else NInf)"
| "js_div NInf (Num b) = (if b \<ge> 0 then NInf else PInf)"
| "js_div _ _ = NaN"

text \<open>\<^verbatim>\<open>Math.min(a, b)\<close>: NaN as soon as one argument is NaN.\<close>

fun js_min :: "jsnum \<Rightarrow> jsnum \<Rightarrow> jsnum" where
  "js_min NaN _ = NaN"
| "js_min _ NaN = NaN"
| "js_min NInf _ = NInf"
| "js_min _ NInf = NInf"
| "js_min PInf b = b"
| "js_min a PInf = a"
| "js_min (Num a) (Num b) = Num (min a b)"

section \<open>Configuration and result\<close>

record config =
  cannyThreshold1 :: real
  cannyThreshold2 :: real
  circleMinRadius :: real
  circleMaxRadius :: real
  circularity :: real
  triangleMinArea :: real
  triangleCorners :: nat
  triangleTolerance :: real
  contourMinArea :: real
  debug :: bool
  thresholdValue :: real

definition CONFIG :: config where
  "CONFIG = \<lparr> cannyThreshold1 = 10, cannyThreshold2 = 50,
     circleMinRadius = 10, circleMaxRadius = 100, circularity = 0.6,
     triangleMinArea = 30, triangleCorners = 3, triangleTolerance = 0.25,
     contourMinArea = 20, debug = True, thresholdValue = 5 \<rparr>"

datatype shape_label = Circle | Triangle | Unknown

record shape_metrics =
  m_area :: real
  m_perimeter :: real
  m_circularity :: jsnum
  m_solidity :: jsnum
  m_numCorners :: nat

text \<open>
  The object \<^verbatim>\<open>detectShape\<close> returns, without its \<^verbatim>\<open>debugImage\<close> and its
  \<^verbatim>\<open>message\<close> (a rendering of the canvas and a formatted string).
\<close>

record classification_result =
  shape :: shape_label
  confidence :: jsnum
  metrics :: "shape_metrics option"

section \<open>The decision of detectShape\<close>

text \<open>Lines 151 to 166: the two hypotheses and their confidences.\<close>

definition isCircle :: "jsnum \<Rightarrow> bool" where
  "isCircle circ = js_gt circ (Num (circularity CONFIG))"

definition circleConfidence :: "jsnum \<Rightarrow> jsnum" where
  "circleConfidence circ =
     (if isCircle circ
      then js_min (Num 1)
             (js_div (js_sub circ (Num (circularity CONFIG)))
                     (js_sub (Num 1) (Num (circularity CONFIG))))
      else Num 0)"

definition isTriangle :: "nat \<Rightarrow> jsnum \<Rightarrow> bool" where
  "isTriangle numCorners solidity = (numCorners = 3 \<and> js_gt solidity (Num 0.85))"

definition triangleConfidence :: "nat \<Rightarrow> jsnum \<Rightarrow> jsnum" where
  "triangleConfidence numCorners solidity =
     (if isTriangle numCorners solidity then js_min (Num 1) solidity else Num 0)"

text \<open>Lines 193 to 240: the label and its confidence.\<close>

definition decide :: "jsnum \<Rightarrow> jsnum \<Rightarrow> nat \<Rightarrow> shape_label \<times> jsnum" where
  "decide circ solidity numCorners =
     (let c = isCircle circ;
          t = isTriangle numCorners solidity;
          cc = circleConfidence circ;
          tc = triangleConfidence numCorners solidity
      in if c \<and> \<not> t then (Circle, cc)
         else if t \<and> \<not> c then (Triangle, tc)
         else if c \<and> t then
           (if js_gt cc tc then (Circle, js_sub cc tc) else (Triangle, js_sub tc cc))
         else
           (if numCorners \<le> 4 then (Triangle, Num 0.5) else (Circle, Num 0.5)))"

section \<open>Typed arrays and points\<close>

text \<open>
  A \<^verbatim>\<open>Uint8Array\<close> is a list of bytes. A read outside the array is
  \<^verbatim>\<open>undefined\<close> (here \<open>None\<close>), which is \<^verbatim>\<open>===\<close> to no number; a write
  outside the array is ignored.
\<close>

type_synonym u8array = "nat list"

type_synonym point = "int \<times> int"

definition u8_get :: "u8array \<Rightarrow> int \<Rightarrow> nat option" where
  "u8_get a i = (if 0 \<le> i \<and> i < int (length a) then Some (a ! nat i) else None)"

definition u8_set :: "u8array \<Rightarrow> int \<Rightarrow> nat \<Rightarrow> u8array" where
  "u8_set a i v = (if 0 \<le> i \<and> i < int (length a) then a[nat i := v] else a)"

section \<open>traceContour\<close>

definition directions :: "(int \<times> int) list" where
  "directions = [(-1, -1), (0, -1), (1, -1), (-1, 0), (1, 0), (-1, 1), (0, 1), (1, 1)]"

text \<open>
  The test both searches of \<^verbatim>\<open>traceContour\<close> apply to a candidate \<open>(nx, ny)\<close>: inside
  the image, part of the shape and not visited.
\<close>

definition free_pixel :: "u8array \<Rightarrow> u8array \<Rightarrow> int \<Rightarrow> int \<Rightarrow> point \<Rightarrow> bool" where
  "free_pixel binary visited width height p =
     (case p of (nx, ny) \<Rightarrow>
        \<not> (nx < 0 \<or> ny < 0 \<or> nx \<ge> width \<or> ny \<ge> height) \<and>
        u8_get binary (ny * width + nx) = Some 255 \<and>
        u8_get visited (ny * width + nx) = Some 0)"

text \<open>The loop over the 8 directions, left at the first candidate that passes.\<close>

definition neighbor_scan :: "u8array \<Rightarrow> u8array \<Rightarrow> int \<Rightarrow> int \<Rightarrow> point \<Rightarrow> point option" where
  "neighbor_scan binary visited width height p =
     (case p of (x, y) \<Rightarrow>
        find (free_pixel binary visited width height)
          (map (\<lambda>(dx, dy). (x + dx, y + dy)) directions))"

text \<open>
  The offsets of the search of radius \<open>r\<close>, in the order of its loops: \<open>dy\<close> outside,
  \<open>dx\<close> inside, the centre skipped.
\<close>

definition ring_offsets :: "int \<Rightarrow> (int \<times> int) list" where
  "ring_offsets r =
     concat (map (\<lambda>dy. concat (map (\<lambda>dx. if dx = 0 \<and> dy = 0 then [] else [(dx, dy)]) [- r .. r]))
       [- r .. r])"

text \<open>
  The search in increasing radius, 2 then 3: the three loops stop at the first candidate
  that passes, since each of them tests \<^verbatim>\<open>!found\<close>.
\<close>

definition gap_scan :: "u8array \<Rightarrow> u8array \<Rightarrow> int \<Rightarrow> int \<Rightarrow> point \<Rightarrow> point option" where
  "gap_scan binary visited width height p =
     (case p of (x, y) \<Rightarrow>
        find (free_pixel binary visited width height)
          (map (\<lambda>(dx, dy). (x + dx, y + dy)) (ring_offsets 2 @ ring_offsets 3)))"

text \<open>
  The state of the walk: the visited map, the contour (grown at its end) and the stack,
  its top first. \<open>trace_step\<close> is one turn of the \<^verbatim>\<open>while\<close> loop, which runs on a
  non-empty stack only.
\<close>

type_synonym trace_state = "u8array \<times> point list \<times> point list"

definition take_pixel :: "int \<Rightarrow> trace_state \<Rightarrow> point \<Rightarrow> trace_state" where
  "take_pixel width st p =
     (case st of (visited, contour, stack) \<Rightarrow>
        (u8_set visited (snd p * width + fst p) 1, contour @ [p], p # stack))"

fun trace_step :: "u8array \<Rightarrow> int \<Rightarrow> int \<Rightarrow> trace_state \<Rightarrow> trace_state" where
  "trace_step binary width height (visited, contour, []) = (visited, contour, [])"
| "trace_step binary width height (visited, contour, p # stack) =
     (case neighbor_scan binary visited width height p of
        Some q \<Rightarrow> take_pixel width (visited, contour, stack) q
      | None \<Rightarrow>
          if stack = [] \<and> length contour > 1 then
            (case gap_scan binary visited width height p of
               Some q \<Rightarrow> take_pixel width (visited, contour, stack) q
             | None \<Rightarrow> (visited, contour, stack))
          else (visited, contour, stack))"

definition unvisited :: "u8array \<Rightarrow> nat" where
  "unvisited visited = length (filter (\<lambda>v. v = 0) visited)"

definition trace_measure :: "trace_state \<Rightarrow> nat" where
  "trace_measure st = (case st of (visited, contour, stack) \<Rightarrow> 2 * unvisited visited + length stack)"

function trace_loop :: "u8array \<Rightarrow> int \<Rightarrow> int \<Rightarrow> trace_state \<Rightarrow> u8array \<times> point list" where
  "trace_loop binary width height (visited, contour, stack) =
     (if stack = [] then (visited, contour)
      else trace_loop binary width height (trace_step binary width height (visited, contour, stack)))"
  by pat_completeness auto

text \<open>
  \<^verbatim>\<open>traceContour\<close> marks the start, puts it on the contour and on the stack, and runs the
  loop. It returns the contour; the visited map it has updated is returned with it.
\<close>

definition traceContour ::
  "u8array \<Rightarrow> u8array \<Rightarrow> int \<Rightarrow> int \<Rightarrow> int \<Rightarrow> int \<Rightarrow> u8array \<times> point list" where
  "traceContour binary visited width height startX startY =
     trace_loop binary width height
       (u8_set visited (startY * width + startX) 1, [(startX, startY)], [(startX, startY)])"

section \<open>findContours\<close>

text \<open>The pixels both double loops of \<^verbatim>\<open>findContours\<close> visit, row by row, the border left out.\<close>

definition interior :: "int \<Rightarrow> int \<Rightarrow> point list" where
  "interior width height =
     concat (map (\<lambda>y. map (\<lambda>x. (x, y)) [1 .. width - 2]) [1 .. height - 2])"

text \<open>
  The sum over the 3 by 3 neighbourhood. Adding \<^verbatim>\<open>undefined\<close> gives NaN, which stays:
  \<open>None\<close> here.
\<close>

definition box_sum :: "u8array \<Rightarrow> int \<Rightarrow> int \<Rightarrow> int \<Rightarrow> nat option" where
  "box_sum enhanced width x y =
     fold (\<lambda>(dy, dx) s.
            case (s, u8_get enhanced ((y + dy) * width + (x + dx))) of
              (Some t, Some v) \<Rightarrow> Some (t + v)
            | _ \<Rightarrow> None)
       (concat (map (\<lambda>dy. map (\<lambda>dx. (dy, dx)) [-1 .. 1]) [-1 .. 1])) (Some 0)"

definition blur :: "u8array \<Rightarrow> int \<Rightarrow> int \<Rightarrow> u8array" where
  "blur enhanced width height =
     fold (\<lambda>(x, y) blurred.
            u8_set blurred (y * width + x)
              (case box_sum enhanced width x y of
                 Some s \<Rightarrow> if s > 255 * 1 then 255 else 0
               | None \<Rightarrow> 0))
       (interior width height) (replicate (length enhanced) 0)"

definition scan_pixel ::
  "u8array \<Rightarrow> int \<Rightarrow> int \<Rightarrow> point \<Rightarrow> u8array \<times> point list list \<Rightarrow> u8array \<times> point list list" where
  "scan_pixel blurred width height p st =
     (case (p, st) of ((x, y), (visited, contours)) \<Rightarrow>
        if u8_get blurred (y * width + x) = Some 255 \<and> u8_get visited (y * width + x) = Some 0
        then (case traceContour blurred visited width height x y of
                (visited', contour) \<Rightarrow>
                  (visited', if length contour > 2 then contours @ [contour] else contours))
        else (visited, contours))"

definition findContours :: "u8array \<Rightarrow> int \<Rightarrow> int \<Rightarrow> point list list" where
  "findContours binary width height =
     (let enhanced = map (\<lambda>v. if v > 0 then 255 else 0) binary;
          blurred = blur enhanced width height
      in snd (fold (scan_pixel blurred width height) (interior width height)
                (replicate (length blurred) 0, [])))"

text \<open>
  What the walk maintains: the points traced so far are pairwise distinct, lie inside the
  image and are marked in the visited map.
\<close>

definition in_image :: "int \<Rightarrow> int \<Rightarrow> point \<Rightarrow> bool" where
  "in_image width height p = (0 \<le> fst p \<and> fst p < width \<and> 0 \<le> snd p \<and> snd p < height)"

definition traced :: "int \<Rightarrow> int \<Rightarrow> u8array \<Rightarrow> point list \<Rightarrow> bool" where
  "traced width height visited pts =
     (distinct pts \<and>
      (\<forall>p \<in> set pts. in_image width height p \<and> u8_get visited (snd p * width + fst p) = Some 1))"

definition scan_inv :: "int \<Rightarrow> int \<Rightarrow> u8array \<times> point list list \<Rightarrow> bool" where
  "scan_inv width height st =
     (case st of (visited, contours) \<Rightarrow>
        traced width height visited (concat contours) \<and> (\<forall>c \<in> set contours. length c > 2))"

text \<open>
  The scan of \<^verbatim>\<open>findContours\<close> goes row by row: \<open>row_before s p\<close> says that the scan
  reaches \<open>s\<close> before \<open>p\<close>. A pixel is \<open>ahead\<close> of the pixels \<open>N\<close> when it lies inside
  the image, belongs to the shape and is none of them. \<open>start_inv\<close> is what the scan
  maintains: none of the pixels it has passed is still free, and every contour begins
  with the pixel the scan reaches first among its points.
\<close>

definition row_before :: "point \<Rightarrow> point \<Rightarrow> bool" where
  "row_before s p = (snd s < snd p \<or> (snd s = snd p \<and> fst s < fst p))"

definition ahead :: "u8array \<Rightarrow> int \<Rightarrow> int \<Rightarrow> point set \<Rightarrow> point \<Rightarrow> bool" where
  "ahead binary width height N p =
     (p \<notin> N \<and> in_image width height p \<and> u8_get binary (snd p * width + fst p) = Some 255)"

definition start_inv ::
  "u8array \<Rightarrow> int \<Rightarrow> int \<Rightarrow> point list \<Rightarrow> u8array \<times> point list list \<Rightarrow> bool" where
  "start_inv blurred width height pre st =
     (case st of (visited, contours) \<Rightarrow>
        (\<forall>p \<in> set pre. \<not> free_pixel blurred visited width height p) \<and>
        (\<forall>c \<in> set contours. c \<noteq> [] \<and> (\<forall>p \<in> set (tl c). row_before (hd c) p)))"

text \<open>
  Two small images, 7 by 3 and 5 by 3. In the first the walk has traced (1,1) and (2,1) and
  the next shape pixel, (4,1), is two columns away. In the second the start (1,1) has no
  neighbour and the other shape pixel, (3,1), is two columns away.
\<close>

definition gap_binary :: u8array where
  "gap_binary = [0,0,0,0,0,0,0, 0,255,255,0,255,0,0, 0,0,0,0,0,0,0]"

definition gap_visited :: u8array where
  "gap_visited = [0,0,0,0,0,0,0, 0,1,1,0,0,0,0, 0,0,0,0,0,0,0]"

definition lone_binary :: u8array where
  "lone_binary = [0,0,0,0,0, 0,255,0,255,0, 0,0,0,0,0]"

section \<open>Area, perimeter, circularity\<close>

text \<open>
  The Shoelace sum runs over integer coordinates, where the arithmetic of doubles is
  exact; the index \<open>j\<close> wraps around to the first point.
\<close>

definition calculateContourArea :: "point list \<Rightarrow> real" where
  "calculateContourArea contour =
     (let n = length contour;
          area = fold (\<lambda>i area.
                   let j = (i + 1) mod n
                   in area + fst (contour ! i) * snd (contour ! j)
                           - fst (contour ! j) * snd (contour ! i))
                 [0 ..< n] (0 :: int)
      in \<bar>real_of_int area / 2\<bar>)"

definition calculateContourPerimeter :: "point list \<Rightarrow> real" where
  "calculateContourPerimeter contour =
     (let n = length contour
      in fold (\<lambda>i perimeter.
                let j = (i + 1) mod n;
                    dx = fst (contour ! j) - fst (contour ! i);
                    dy = snd (contour ! j) - snd (contour ! i)
                in perimeter + sqrt (real_of_int (dx * dx + dy * dy)))
           [0 ..< n] 0)"

definition calculateCircularity :: "real \<Rightarrow> real \<Rightarrow> jsnum" where
  "calculateCircularity area perimeter =
     js_div (Num (4 * pi * area)) (Num (perimeter * perimeter))"

section \<open>calculateConvexHull\<close>

definition isCounterClockwise :: "point \<Rightarrow> point \<Rightarrow> point \<Rightarrow> bool" where
  "isCounterClockwise p1 p2 p3 =
     ((fst p2 - fst p1) * (snd p3 - snd p1) - (snd p2 - snd p1) * (fst p3 - fst p1) > 0)"

text \<open>The index of the point with the lowest \<open>y\<close>, the leftmost of them, the first such.\<close>

definition find_start :: "point list \<Rightarrow> nat" where
  "find_start contour =
     fold (\<lambda>i start.
            if snd (contour ! i) < snd (contour ! start) \<or>
               (snd (contour ! i) = snd (contour ! start) \<and> fst (contour ! i) < fst (contour ! start))
            then i else start)
       [1 ..< length contour] 0"

text \<open>
  \<^verbatim>\<open>[contour[0], contour[start]] = [contour[start], contour[0]]\<close> writes into the array
  the caller passed: \<open>swap_start\<close> is that array after the call.
\<close>

definition swap_start :: "point list \<Rightarrow> point list" where
  "swap_start contour =
     (let start = find_start contour
      in (contour[0 := contour ! start])[start := contour ! 0])"

text \<open>
  \<^verbatim>\<open>Math.atan2(y, x)\<close> on finite arguments, as an exact real: two points have the same
  angle when they lie on one ray from the start point.
\<close>

definition js_atan2 :: "real \<Rightarrow> real \<Rightarrow> real" where
  "js_atan2 y x =
     (if x > 0 then arctan (y / x)
      else if x < 0 then (if y \<ge> 0 then arctan (y / x) + pi else arctan (y / x) - pi)
      else if y > 0 then pi / 2
      else if y < 0 then - pi / 2
      else 0)"

definition polar_angle :: "point \<Rightarrow> point \<Rightarrow> real" where
  "polar_angle startPoint a =
     js_atan2 (real_of_int (snd a - snd startPoint)) (real_of_int (fst a - fst startPoint))"

text \<open>The \<^verbatim>\<open>while\<close> loop of the scan: pop while the last two points and \<open>p\<close> do not turn left.\<close>

function hull_pop :: "point list \<Rightarrow> point \<Rightarrow> point list" where
  "hull_pop hullPts p =
     (if length hullPts > 1 \<and>
         \<not> isCounterClockwise (hullPts ! (length hullPts - 2)) (hullPts ! (length hullPts - 1)) p
      then hull_pop (butlast hullPts) p
      else hullPts)"
  by pat_completeness auto
termination
  by (relation "measure (\<lambda>(hullPts, p). length hullPts)") auto

declare hull_pop.simps [simp del]

text \<open>
  \<^verbatim>\<open>calculateConvexHull\<close> returns the hull; the contour it has reordered is returned with
  it, first. The comparator of the sort is the difference of two angles, and the sort of
  an array is stable: the points come out in the order of \<open>sort_key\<close>. On a contour of
  fewer than two points \<^verbatim>\<open>sortedPoints[0]\<close> is \<^verbatim>\<open>undefined\<close> and the hull holds it,
  so that its first use in \<^verbatim>\<open>detectShape\<close> throws: \<open>None\<close>.
\<close>

definition calculateConvexHull :: "point list \<Rightarrow> (point list \<times> point list) option" where
  "calculateConvexHull contour =
     (if length contour < 2 then None
      else
        let contour' = swap_start contour;
            startPoint = contour' ! 0;
            sortedPoints = sort_key (polar_angle startPoint) (drop 1 contour');
            hullPts = fold (\<lambda>p hullPts. hull_pop hullPts p @ [p]) (drop 1 sortedPoints)
                     [startPoint, sortedPoints ! 0]
        in Some (contour', hullPts))"

text \<open>
  The quantity \<^verbatim>\<open>isCounterClockwise\<close> tests, seen from the start point \<open>s\<close>: the cross
  product of \<open>p - s\<close> and \<open>q - s\<close>. \<open>hull_inv\<close> is what the scan of the sorted points
  maintains: the hull begins with \<open>s\<close>, its other points are points already scanned, in
  the order of the sort; when it has three points or more the first three turn left, and
  when it has two, all the points scanned lie on one line through \<open>s\<close>.
\<close>

definition cross_at :: "point \<Rightarrow> point \<Rightarrow> point \<Rightarrow> int" where
  "cross_at s p q = (fst p - fst s) * (snd q - snd s) - (snd p - snd s) * (fst q - fst s)"

definition hull_inv :: "point \<Rightarrow> point list \<Rightarrow> point list \<Rightarrow> bool" where
  "hull_inv s seen h =
     (\<exists>h'. h = s # h' \<and> h' \<noteq> [] \<and> set h' \<subseteq> set seen \<and>
        sorted_wrt (\<lambda>a b. cross_at s a b \<ge> 0) h' \<and>
        (length h' \<ge> 2 \<longrightarrow> cross_at s (h' ! 0) (h' ! 1) > 0) \<and>
        (length h' = 1 \<longrightarrow> (\<forall>a \<in> set seen. \<forall>b \<in> set seen. cross_at s a b = 0)))"

text \<open>
  The contour \<^verbatim>\<open>findContours\<close> traces on an image of 10 by 8 pixels that are all part of
  the shape: a walk of 47 points back and forth over the rows 1 to 6.
\<close>

definition block_contour :: "point list" where
  "block_contour =
     [(1, 1), (2, 1), (3, 1), (4, 1), (5, 1), (6, 1), (7, 1), (8, 1), (7, 2), (6, 2), (5, 2),
      (4, 2), (3, 2), (2, 2), (1, 2), (1, 3), (2, 3), (3, 3), (4, 3), (5, 3), (6, 3), (7, 3),
      (8, 2), (8, 3), (7, 4), (6, 4), (5, 4), (4, 4), (3, 4), (2, 4), (1, 4), (1, 5), (2, 5),
      (3, 5), (4, 5), (5, 5), (6, 5), (7, 5), (8, 4), (8, 5), (7, 6), (6, 6), (5, 6), (4, 6),
      (3, 6), (2, 6), (1, 6)]"

section \<open>approxPolyDP\<close>

definition perpendicularDistance :: "point \<Rightarrow> point \<Rightarrow> point \<Rightarrow> jsnum" where
  "perpendicularDistance point lineStart lineEnd =
     (case (point, lineStart, lineEnd) of ((x, y), (x1, y1), (x2, y2)) \<Rightarrow>
        let area = \<bar>real_of_int ((y2 - y1) * x - (x2 - x1) * y + x2 * y1 - y2 * x1)\<bar>;
            len = sqrt (real_of_int ((y2 - y1) ^ 2 + (x2 - x1) ^ 2))
        in js_div (Num area) (Num len))"

text \<open>The loop that finds the point with the maximum distance from the line: it returns
  \<open>(maxDist, index)\<close>.\<close>

definition farthest :: "point list \<Rightarrow> jsnum \<times> nat" where
  "farthest contour =
     (let firstPoint = contour ! 0;
          lastPoint = contour ! (length contour - 1)
      in fold (\<lambda>i (maxDist, index).
                let dist = perpendicularDistance (contour ! i) firstPoint lastPoint
                in if js_gt dist maxDist then (dist, i) else (maxDist, index))
           [1 ..< length contour - 1] (Num 0, 0))"

text \<open>
  The recursion of \<^verbatim>\<open>approxPolyDP\<close> need not end (the second half is the whole contour
  again when \<open>index\<close> is 0): \<open>None\<close> is a call that does not return. The depth of the
  call stack is not bounded here.
\<close>

partial_function (option) approxPolyDP :: "point list \<Rightarrow> jsnum \<Rightarrow> point list option" where
  "approxPolyDP contour epsilon =
     (if length contour \<le> 2 then Some contour
      else case farthest contour of (maxDist, index) \<Rightarrow>
        if js_gt maxDist epsilon then
          Option.bind (approxPolyDP (take (index + 1) contour) epsilon) (\<lambda>firstHalf.
          Option.bind (approxPolyDP (drop index contour) epsilon) (\<lambda>secondHalf.
            Some (butlast firstHalf @ secondHalf)))
        else Some [contour ! 0, contour ! (length contour - 1)])"

text \<open>
  What the loop of \<open>farthest\<close> returns, on the distances \<open>D\<close> of the points \<open>a\<close> to
  \<open>b - 1\<close>: either no distance exceeds 0 (\<open>flat\<close>) and it returns \<open>(0, 0)\<close>, or it
  returns the first greatest distance and its index (\<open>peak\<close>).
\<close>

definition peak :: "(nat \<Rightarrow> jsnum) \<Rightarrow> nat \<Rightarrow> nat \<Rightarrow> jsnum \<Rightarrow> nat \<Rightarrow> bool" where
  "peak D a b m k =
     (a \<le> k \<and> k < b \<and> D k = m \<and> js_gt m (Num 0) \<and>
      (\<forall>i. a \<le> i \<and> i < k \<longrightarrow> D i = NaN \<or> js_gt m (D i)) \<and>
      (\<forall>i. k < i \<and> i < b \<longrightarrow> \<not> js_gt (D i) m))"

definition flat :: "(nat \<Rightarrow> jsnum) \<Rightarrow> nat \<Rightarrow> nat \<Rightarrow> bool" where
  "flat D a b = (\<forall>i. a \<le> i \<and> i < b \<longrightarrow> \<not> js_gt (D i) (Num 0))"

definition dist_at :: "point list \<Rightarrow> nat \<Rightarrow> jsnum" where
  "dist_at c i = perpendicularDistance (c ! i) (c ! 0) (c ! (length c - 1))"

text \<open>A call that goes on with index 0 calls itself again and does not return.\<close>

definition stuck :: "point list \<Rightarrow> jsnum \<Rightarrow> bool" where
  "stuck c e = (length c > 2 \<and> snd (farthest c) = 0 \<and> js_gt (fst (farthest c)) e)"

text \<open>The points of a contour between its first and its last.\<close>

definition inner :: "'a list \<Rightarrow> 'a list" where
  "inner c = butlast (tl c)"

text \<open>
  What a result \<open>r\<close> of \<open>approxPolyDP c e\<close> satisfies: it is simplified to itself, it keeps
  the ends of \<open>c\<close>, and its inner points are inner points of \<open>c\<close>.
\<close>

definition simplified :: "point list \<Rightarrow> jsnum \<Rightarrow> point list \<Rightarrow> bool" where
  "simplified c e r =
     (\<not> stuck c e \<and> approxPolyDP r e = Some r \<and>
      (if length c < 2 then r = c
       else length r \<ge> 2 \<and> r ! 0 = c ! 0 \<and> last r = last c \<and> set (inner r) \<subseteq> set (inner c)))"

section \<open>The binary image\<close>

text \<open>
  Lines 46 to 64. A channel read past the end of the pixel data is \<^verbatim>\<open>undefined\<close>
  (\<open>None\<close>): it makes the luminance NaN, and compares false with 200.
\<close>

text \<open>
  The luminance is computed in doubles, as the code computes it: \<open>round_double\<close> is the
  rounding of a real to the nearest double, ties to the even significand (53 bits; the
  range of the exponent is not modelled, the values here are far from its ends).
  \<open>ilog2 x\<close> is the exponent of \<open>x\<close>, for \<open>0 < x\<close>. Each constant and each operation
  is rounded once.
\<close>

fun nbits :: "nat \<Rightarrow> nat" where
  "nbits n = (if n = 0 then 0 else Suc (nbits (n div 2)))"

declare nbits.simps [simp del]

definition pow2 :: "int \<Rightarrow> real" where
  "pow2 k = (if k \<ge> 0 then 2 ^ nat k else 1 / 2 ^ nat (- k))"

definition ilog2 :: "real \<Rightarrow> int" where
  "ilog2 x =
     (if x \<ge> 1 then int (nbits (nat \<lfloor>x\<rfloor>)) - 1
      else - int (nbits (nat (\<lceil>1 / x\<rceil> - 1))))"

definition round_even :: "real \<Rightarrow> int" where
  "round_even y =
     (let f = \<lfloor>y\<rfloor>; d = y - real_of_int f
      in if d < 1 / 2 then f
         else if d > 1 / 2 then f + 1
         else if even f then f else f + 1)"

definition round_double :: "real \<Rightarrow> real" where
  "round_double x =
     (if x = 0 then 0
      else let u = pow2 (ilog2 \<bar>x\<bar> - 52)
           in real_of_int (round_even (x / u)) * u)"

definition d_mul :: "real \<Rightarrow> real \<Rightarrow> real" where
  "d_mul a b = round_double (a * b)"

definition d_add :: "real \<Rightarrow> real \<Rightarrow> real" where
  "d_add a b = round_double (a + b)"

definition luminance :: "nat option \<Rightarrow> nat option \<Rightarrow> nat option \<Rightarrow> nat option \<Rightarrow> jsnum" where
  "luminance r g b a =
     (let boost = (case a of Some v \<Rightarrow> if v > 200 then 1.5 else 1.0 | None \<Rightarrow> 1.0)
      in case (r, g, b) of
           (Some r', Some g', Some b') \<Rightarrow>
             Num (d_mul
                    (d_add
                       (d_add (d_mul (round_double 0.299) (real r'))
                              (d_mul (round_double 0.587) (real g')))
                       (d_mul (round_double 0.114) (real b')))
                    boost)
         | _ \<Rightarrow> NaN)"

text \<open>The conversion a store into a \<^verbatim>\<open>Uint8Array\<close> applies: truncate, then wrap
  modulo 256; NaN and the infinities become 0.\<close>

fun to_uint8 :: "jsnum \<Rightarrow> nat" where
  "to_uint8 (Num v) = nat ((if v \<ge> 0 then \<lfloor>v\<rfloor> else \<lceil>v\<rceil>) mod 256)"
| "to_uint8 _ = 0"

definition gray_pixel :: "nat option \<Rightarrow> nat option \<Rightarrow> nat option \<Rightarrow> nat option \<Rightarrow> nat" where
  "gray_pixel r g b a = to_uint8 (js_min (Num 255) (luminance r g b a))"

definition grayscale :: "u8array \<Rightarrow> int \<Rightarrow> int \<Rightarrow> u8array" where
  "grayscale data width height =
     fold (\<lambda>k gray.
            let i = 4 * int k
            in u8_set gray (int k)
                 (gray_pixel (u8_get data i) (u8_get data (i + 1))
                    (u8_get data (i + 2)) (u8_get data (i + 3))))
       [0 ..< (length data + 3) div 4] (replicate (nat (width * height)) 0)"

definition threshold_pixel :: "nat \<Rightarrow> nat" where
  "threshold_pixel g = (if real g > thresholdValue CONFIG then 255 else 0)"

definition binarize :: "u8array \<Rightarrow> int \<Rightarrow> int \<Rightarrow> u8array" where
  "binarize data width height = map threshold_pixel (grayscale data width height)"

section \<open>detectShape\<close>

text \<open>
  \<^verbatim>\<open>detectShape\<close> from the pixel data of the canvas. The drawing on the debug canvas and the
  centroid, which only that drawing uses, are left out. \<^verbatim>\<open>approxPolyDP\<close> runs on the
  contour as \<^verbatim>\<open>calculateConvexHull\<close> has left it. \<open>None\<close> is a call that returns no
  result.
\<close>

definition largest :: "point list list \<Rightarrow> point list" where
  "largest validContours =
     foldl (\<lambda>prev current.
             if calculateContourArea current > calculateContourArea prev then current else prev)
       (hd validContours) (tl validContours)"

definition classify :: "point list \<Rightarrow> classification_result option" where
  "classify mainContour =
     (let area = calculateContourArea mainContour;
          perimeter = calculateContourPerimeter mainContour;
          circ = calculateCircularity area perimeter
      in case calculateConvexHull mainContour of
           None \<Rightarrow> None
         | Some (mainContour', convexHull) \<Rightarrow>
             let convexArea = calculateContourArea convexHull;
                 solidity = js_div (Num area) (Num convexArea);
                 epsilon = triangleTolerance CONFIG * perimeter
             in case approxPolyDP mainContour' (Num epsilon) of
                  None \<Rightarrow> None
                | Some approximatedPolygon \<Rightarrow>
                    let numCorners = length approximatedPolygon
                    in case decide circ solidity numCorners of
                         (detectedShape, conf) \<Rightarrow>
                           Some \<lparr> shape = detectedShape, confidence = conf,
                                  metrics = Some \<lparr> m_area = area, m_perimeter = perimeter,
                                    m_circularity = circ, m_solidity = solidity,
                                    m_numCorners = numCorners \<rparr> \<rparr>)"

definition detectShape :: "u8array \<Rightarrow> int \<Rightarrow> int \<Rightarrow> classification_result option" where
  "detectShape data width height =
     (let binary = binarize data width height;
          contours = findContours binary width height;
          validContours = filter (\<lambda>contour. calculateContourArea contour > contourMinArea CONFIG)
                            contours
      in if length validContours = 0
         then Some \<lparr> shape = Unknown, confidence = Num 0, metrics = None \<rparr>
         else classify (largest validContours))"

section \<open>Termination of the walk\<close>

text \<open>Every turn of the loop either marks an unvisited pixel or shortens the stack.\<close>

lemma filter_zero_update:
  "n < length xs \<Longrightarrow> xs ! n = (0::nat) \<Longrightarrow>
   Suc (length (filter (\<lambda>v. v = 0) (xs[n := 1]))) = length (filter (\<lambda>v. v = 0) xs)"
  by (induction xs arbitrary: n) (auto split: nat.splits)

lemma unvisited_mark:
  assumes "u8_get visited i = Some 0"
  shows "Suc (unvisited (u8_set visited i 1)) = unvisited visited"
proof -
  from assms have "0 \<le> i" "nat i < length visited" "visited ! nat i = 0"
    by (auto simp: u8_get_def split: if_splits)
  then show ?thesis
    using filter_zero_update [of "nat i" visited] by (simp add: unvisited_def u8_set_def)
qed

lemma free_pixel_unvisited:
  "free_pixel binary visited width height q \<Longrightarrow> u8_get visited (snd q * width + fst q) = Some 0"
  by (cases q) (simp add: free_pixel_def)

lemma neighbor_scan_free:
  "neighbor_scan binary visited width height p = Some q \<Longrightarrow> free_pixel binary visited width height q"
  by (cases p) (auto simp: neighbor_scan_def find_Some_iff)

lemma gap_scan_free:
  "gap_scan binary visited width height p = Some q \<Longrightarrow> free_pixel binary visited width height q"
  by (cases p) (auto simp: gap_scan_def find_Some_iff)

lemma trace_step_decreases:
  "trace_measure (trace_step binary width height (visited, contour, p # stack))
     < trace_measure (visited, contour, p # stack)"
proof -
  have mark: "trace_measure (take_pixel width (visited, contour, stack) q)
      < trace_measure (visited, contour, p # stack)"
    if "free_pixel binary visited width height q" for q
    using unvisited_mark [OF free_pixel_unvisited [OF that]]
    by (simp add: trace_measure_def take_pixel_def)
  have pop: "trace_measure (visited, contour, stack) < trace_measure (visited, contour, p # stack)"
    by (simp add: trace_measure_def)
  show ?thesis
  proof (cases "neighbor_scan binary visited width height p")
    case (Some q)
    then show ?thesis
      using mark [OF neighbor_scan_free [OF Some]] by simp
  next
    case None
    show ?thesis
    proof (cases "gap_scan binary visited width height p")
      case (Some q)
      then show ?thesis
        using None mark [OF gap_scan_free [OF Some]] pop by auto
    next
      case gap: None
      then show ?thesis
        using None pop by auto
    qed
  qed
qed

termination trace_loop
proof (relation "measure (\<lambda>(binary, width, height, st). trace_measure st)")
  show "wf (measure (\<lambda>(binary, width, height, st). trace_measure st))"
    by simp
next
  fix binary :: u8array and width height :: int and visited :: u8array
    and contour stack :: "point list"
  assume "stack \<noteq> []"
  then obtain p rest where "stack = p # rest"
    by (cases stack) auto
  then show "((binary, width, height, trace_step binary width height (visited, contour, stack)),
       (binary, width, height, visited, contour, stack))
      \<in> measure (\<lambda>(binary, width, height, st). trace_measure st)"
    using trace_step_decreases [of binary width height visited contour p rest] by simp
qed

declare trace_loop.simps [simp del]

section \<open>Properties of the decision\<close>

lemma circleConfidence_range:
  "isCircle circ \<Longrightarrow> \<exists>r. circleConfidence circ = Num r \<and> 0 < r \<and> r \<le> 1"
  by (cases circ) (auto simp: circleConfidence_def isCircle_def CONFIG_def min_def)

lemma triangleConfidence_range:
  "isTriangle n s \<Longrightarrow> \<exists>r. triangleConfidence n s = Num r \<and> 0 < r \<and> r \<le> 1"
  by (cases s) (auto simp: triangleConfidence_def isTriangle_def min_def)

text \<open>
  Claim C1. When both hypotheses hold, the two confidences are numbers; the shape returned
  is the circle when \<open>circleConfidence\<close> is the higher and the triangle when
  \<open>triangleConfidence\<close> is the higher, and the confidence returned is the winner's minus
  the loser's, which is not negative. (With equal confidences the code returns the
  triangle, with confidence 0.)
\<close>

theorem detectShape_both_margin:
  assumes c: "isCircle circ" and t: "isTriangle numCorners solidity"
  shows "\<exists>cc tc. circleConfidence circ = Num cc \<and>
           triangleConfidence numCorners solidity = Num tc \<and>
           (cc > tc \<longrightarrow> decide circ solidity numCorners = (Circle, Num (cc - tc))) \<and>
           (tc > cc \<longrightarrow> decide circ solidity numCorners = (Triangle, Num (tc - cc))) \<and>
           (cc = tc \<longrightarrow> decide circ solidity numCorners = (Triangle, Num 0)) \<and>
           snd (decide circ solidity numCorners) = Num \<bar>cc - tc\<bar> \<and> 0 \<le> \<bar>cc - tc\<bar>"
proof -
  from circleConfidence_range [OF c] obtain cc where cc: "circleConfidence circ = Num cc"
    by blast
  from triangleConfidence_range [OF t] obtain tc
    where tc: "triangleConfidence numCorners solidity = Num tc"
    by blast
  show ?thesis
    using c t by (simp add: decide_def cc tc Let_def)
qed

text \<open>The scenario of the specification: circularity 0.61, three corners, solidity 0.9.\<close>

theorem detectShape_both_margin_witness:
  "isCircle (Num 0.61) \<and> isTriangle 3 (Num 0.9) \<and>
   decide (Num 0.61) (Num 0.9) 3 = (Triangle, Num 0.875)"
  using detectShape_both_margin [of "Num 0.61" 3 "Num 0.9"]
  by (simp add: isCircle_def isTriangle_def circleConfidence_def triangleConfidence_def
      decide_def CONFIG_def)

text \<open>
  Claim C6. When neither hypothesis holds, the shape returned is the triangle for at most
  4 corners and the circle for more, with confidence 0.5 in both cases.
\<close>

theorem detectShape_fallback:
  assumes "\<not> isCircle circ" and "\<not> isTriangle numCorners solidity"
  shows "decide circ solidity numCorners =
           (if numCorners \<le> 4 then Triangle else Circle, Num 0.5)"
  using assms by (simp add: decide_def)

theorem detectShape_fallback_witness:
  "\<not> isCircle (Num 0.5) \<and> \<not> isTriangle 5 (Num 0.5) \<and> \<not> isTriangle 3 (Num 0.5) \<and>
   decide (Num 0.5) (Num 0.5) 5 = (Circle, Num 0.5) \<and>
   decide (Num 0.5) (Num 0.5) 3 = (Triangle, Num 0.5)"
  using detectShape_fallback [of "Num 0.5" 5 "Num 0.5"]
    detectShape_fallback [of "Num 0.5" 3 "Num 0.5"]
  by (simp add: isCircle_def isTriangle_def CONFIG_def)

text \<open>Whatever the three measures are, the decision returns a circle or a triangle with a
  confidence between 0 and 1.\<close>

lemma decide_range:
  "\<exists>s r. decide circ solidity numCorners = (s, Num r) \<and> s \<noteq> Unknown \<and> 0 \<le> r \<and> r \<le> 1"
proof -
  consider (c) "isCircle circ" "\<not> isTriangle numCorners solidity"
    | (t) "isTriangle numCorners solidity" "\<not> isCircle circ"
    | (b) "isCircle circ" "isTriangle numCorners solidity"
    | (n) "\<not> isCircle circ" "\<not> isTriangle numCorners solidity"
    by blast
  then show ?thesis
  proof cases
    case c
    with circleConfidence_range [of circ] show ?thesis
      by (auto simp: decide_def)
  next
    case t
    with triangleConfidence_range [of numCorners solidity] show ?thesis
      by (auto simp: decide_def)
  next
    case b
    with circleConfidence_range [of circ] triangleConfidence_range [of numCorners solidity]
    show ?thesis
      by (auto simp: decide_def Let_def)
  next
    case n
    then have "decide circ solidity numCorners =
        (if numCorners \<le> 4 then Triangle else Circle, Num 0.5)"
      by (simp add: decide_def)
    then show ?thesis
      by (intro exI [of _ "if numCorners \<le> 4 then Triangle else Circle"] exI [of _ "0.5"]) simp
  qed
qed

section \<open>The perimeter\<close>

lemma fold_sum_upt:
  "fold (\<lambda>i acc. acc + f i) [0 ..< n] (a :: real) = a + sum f {0 ..< n}"
  by (induction n) (simp_all add: atLeast0_lessThan_Suc)

lemma perimeter_sum:
  "calculateContourPerimeter c =
     (\<Sum>i = 0 ..< length c.
        sqrt (real_of_int
          ((fst (c ! ((i + 1) mod length c)) - fst (c ! i)) * (fst (c ! ((i + 1) mod length c)) - fst (c ! i)) +
           (snd (c ! ((i + 1) mod length c)) - snd (c ! i)) * (snd (c ! ((i + 1) mod length c)) - snd (c ! i)))))"
  unfolding calculateContourPerimeter_def Let_def by (simp add: fold_sum_upt)

lemma perimeter_nonneg: "0 \<le> calculateContourPerimeter c"
  unfolding perimeter_sum by (intro sum_nonneg) simp

lemma perimeter_zero_next:
  assumes "calculateContourPerimeter c = 0" and "i < length c"
  shows "c ! ((i + 1) mod length c) = c ! i"
proof -
  let ?t = "\<lambda>i. sqrt (real_of_int
          ((fst (c ! ((i + 1) mod length c)) - fst (c ! i)) * (fst (c ! ((i + 1) mod length c)) - fst (c ! i)) +
           (snd (c ! ((i + 1) mod length c)) - snd (c ! i)) * (snd (c ! ((i + 1) mod length c)) - snd (c ! i))))"
  have "sum ?t {0 ..< length c} = 0"
    using assms(1) by (simp add: perimeter_sum)
  moreover have "\<forall>i \<in> {0 ..< length c}. 0 \<le> ?t i"
    by simp
  ultimately have "\<forall>i \<in> {0 ..< length c}. ?t i = 0"
    by (subst (asm) sum_nonneg_eq_0_iff) auto
  with assms(2) have z: "?t i = 0"
    by simp
  let ?dx = "fst (c ! ((i + 1) mod length c)) - fst (c ! i)"
  let ?dy = "snd (c ! ((i + 1) mod length c)) - snd (c ! i)"
  from z have "?dx * ?dx + ?dy * ?dy = 0"
    by simp
  then have "?dx = 0 \<and> ?dy = 0"
    by (simp add: sum_power2_eq_zero_iff flip: power2_eq_square)
  then show ?thesis
    by (simp add: prod_eq_iff)
qed

lemma area_nonneg: "0 \<le> calculateContourArea c"
  by (simp add: calculateContourArea_def Let_def)

section \<open>The threshold\<close>

text \<open>The rounding: the exponent brackets the argument, and the result is nearest.\<close>

lemma nbits_0: "nbits 0 = 0"
  by (simp add: nbits.simps)

lemma nbits_1: "nbits (Suc 0) = Suc 0"
  by (subst nbits.simps) (simp add: nbits_0)

lemma nbits_bounds: "0 < n \<Longrightarrow> 2 ^ (nbits n - 1) \<le> n \<and> n < 2 ^ nbits n"
proof (induction n rule: nbits.induct)
  case (1 n)
  show ?case
  proof (cases "n div 2 = 0")
    case True
    with "1.prems" have "n = 1" by (auto simp: div_eq_0_iff)
    then show ?thesis
      by (simp add: nbits_1)
  next
    case False
    with 1 have IH: "2 ^ (nbits (n div 2) - 1) \<le> n div 2" "n div 2 < 2 ^ nbits (n div 2)"
      by auto
    have pos: "0 < nbits (n div 2)"
      using False by (simp add: nbits.simps [of "n div 2"])
    have eq: "nbits n = Suc (nbits (n div 2))"
      using "1.prems" by (simp add: nbits.simps [of n])
    define k :: nat where "k = 2 ^ (nbits (n div 2) - 1)"
    have "2 ^ nbits (n div 2) = 2 * k"
      unfolding k_def using pos by (cases "nbits (n div 2)") auto
    moreover have "k \<le> n div 2" "n div 2 < 2 * k"
      using IH \<open>2 ^ nbits (n div 2) = 2 * k\<close> by (simp_all add: k_def)
    then have "2 * k \<le> n" "n < 2 * (2 * k)"
      by arith+
    ultimately show ?thesis
      unfolding eq by (simp add: k_def)
  qed
qed

lemma pow2_pos: "0 < pow2 k"
  by (simp add: pow2_def)

lemma pow2_neg: "pow2 (- int m) = 1 / 2 ^ m"
proof (cases "m = 0")
  case True
  then show ?thesis by (simp add: pow2_def)
next
  case False
  then have "\<not> (0 \<le> - int m)" "nat (- (- int m)) = m"
    by simp_all
  then show ?thesis
    by (simp only: pow2_def if_False)
qed

lemma pow2_Suc: "pow2 (k + 1) = 2 * pow2 k"
proof (cases "k \<ge> 0")
  case True
  then show ?thesis
    by (simp add: pow2_def nat_add_distrib)
next
  case False
  then have "nat (- k) = Suc (nat (- (k + 1)))"
    by simp
  with False show ?thesis
    by (cases "k = - 1") (simp_all add: pow2_def)
qed

lemma ilog2_bounds:
  assumes "0 < x"
  shows "pow2 (ilog2 x) \<le> x \<and> x < pow2 (ilog2 x + 1)"
proof (cases "x \<ge> 1")
  case True
  let ?n = "nat \<lfloor>x\<rfloor>"
  have n: "0 < ?n" using True by simp
  from nbits_bounds [OF n] have b: "2 ^ (nbits ?n - 1) \<le> ?n" "?n < 2 ^ nbits ?n"
    by auto
  have p: "0 < nbits ?n"
    using n by (simp add: nbits.simps [of ?n])
  have e: "ilog2 x = int (nbits ?n - 1)"
    using True p by (simp add: ilog2_def)
  have "real (2 ^ (nbits ?n - 1)) \<le> real ?n"
    using b(1) of_nat_le_iff by blast
  also have "real ?n \<le> x"
    using True by simp
  finally have lo: "pow2 (ilog2 x) \<le> x"
    by (simp add: e pow2_def)
  have "x < real ?n + 1"
    using True by linarith
  also have "real ?n + 1 \<le> real (2 ^ nbits ?n)"
  proof -
    have "Suc ?n \<le> 2 ^ nbits ?n"
      by (rule Suc_leI [OF b(2)])
    then have "real (Suc ?n) \<le> real (2 ^ nbits ?n)"
      by (rule of_nat_mono)
    then show ?thesis by simp
  qed
  finally have "x < 2 ^ nbits ?n"
    by simp
  moreover have "ilog2 x + 1 = int (nbits ?n)"
    using e p by simp
  ultimately have "x < pow2 (ilog2 x + 1)"
    by (simp add: pow2_def)
  with lo show ?thesis by simp
next
  case False
  then have x1: "x < 1" by simp
  let ?N = "\<lceil>1 / x\<rceil>"
  let ?n = "nat (?N - 1)"
  have y: "1 < 1 / x" using assms x1 by simp
  then have N2: "2 \<le> ?N" by linarith
  then have n: "0 < ?n" by linarith
  have "0 \<le> ?N - 1" using N2 by linarith
  then have "real (nat (?N - 1)) = real_of_int (?N - 1)"
    by (rule of_nat_nat)
  then have rn: "real ?n = real_of_int ?N - 1"
    by simp
  from nbits_bounds [OF n] have b: "2 ^ (nbits ?n - 1) \<le> ?n" "?n < 2 ^ nbits ?n"
    by auto
  have p: "0 < nbits ?n"
    using n by (simp add: nbits.simps [of ?n])
  have e: "ilog2 x = - int (nbits ?n)"
    using False by (simp add: ilog2_def)
  have "1 / x \<le> real_of_int ?N" by linarith
  also have "real_of_int ?N = real ?n + 1" using rn by simp
  also have "real ?n + 1 \<le> real (2 ^ nbits ?n)"
  proof -
    have "Suc ?n \<le> 2 ^ nbits ?n"
      by (rule Suc_leI [OF b(2)])
    then have "real (Suc ?n) \<le> real (2 ^ nbits ?n)"
      by (rule of_nat_mono)
    then show ?thesis by simp
  qed
  finally have "1 / x \<le> 2 ^ nbits ?n" by simp
  then have "1 / 2 ^ nbits ?n \<le> x"
    using assms by (simp add: field_simps)
  then have lo: "pow2 (ilog2 x) \<le> x"
    using p by (simp add: e pow2_def)
  have "real (2 ^ (nbits ?n - 1)) \<le> real ?n"
    using b(1) of_nat_le_iff by blast
  also have "real ?n = real_of_int ?N - 1" by (rule rn)
  also have "real_of_int ?N - 1 < 1 / x" by linarith
  finally have "2 ^ (nbits ?n - 1) < 1 / x" by simp
  then have "x < 1 / 2 ^ (nbits ?n - 1)"
    using assms by (simp add: field_simps)
  moreover have "pow2 (ilog2 x + 1) = 1 / 2 ^ (nbits ?n - 1)"
  proof -
    have "ilog2 x + 1 = - int (nbits ?n - 1)"
      using e p by simp
    then show ?thesis
      by (simp only: pow2_neg)
  qed
  ultimately show ?thesis
    using lo by simp
qed

lemma round_even_near: "\<bar>real_of_int (round_even y) - y\<bar> \<le> 1 / 2"
  unfolding round_even_def Let_def by (auto simp: abs_le_iff; linarith)

lemma round_even_nonneg: "0 \<le> y \<Longrightarrow> 0 \<le> round_even y"
  by (auto simp: round_even_def Let_def)

text \<open>The result is within half a unit in the last place of the argument.\<close>

lemma round_double_near:
  "\<bar>round_double x - x\<bar> \<le> pow2 (ilog2 \<bar>x\<bar> - 52) / 2"
proof (cases "x = 0")
  case True
  then show ?thesis
    using pow2_pos [of "ilog2 0 - 52"] by (simp add: round_double_def)
next
  case False
  let ?u = "pow2 (ilog2 \<bar>x\<bar> - 52)"
  have u: "0 < ?u" by (rule pow2_pos)
  have "round_double x - x = (real_of_int (round_even (x / ?u)) - x / ?u) * ?u"
    using False u by (simp add: round_double_def Let_def field_simps)
  then have "\<bar>round_double x - x\<bar> = \<bar>real_of_int (round_even (x / ?u)) - x / ?u\<bar> * ?u"
    using u by (simp add: abs_mult)
  also have "\<dots> \<le> 1 / 2 * ?u"
    using round_even_near [of "x / ?u"] u by (intro mult_right_mono) auto
  finally show ?thesis by simp
qed

lemma round_double_nonneg: "0 \<le> x \<Longrightarrow> 0 \<le> round_double x"
  using pow2_pos [of "ilog2 \<bar>x\<bar> - 52"] round_even_nonneg [of "x / pow2 (ilog2 \<bar>x\<bar> - 52)"]
  by (simp add: round_double_def Let_def)

lemma u8_set_length: "length (u8_set a i v) = length a"
  by (simp add: u8_set_def)

lemma fold_store_length:
  "length (fold (\<lambda>k g. u8_set g (int k) (f k)) ks xs) = length xs"
  by (induction ks arbitrary: xs) (simp_all add: u8_set_length)

lemma fold_store_nth:
  "n \<le> length xs \<Longrightarrow> k < n \<Longrightarrow>
   fold (\<lambda>k g. u8_set g (int k) (f k)) [0 ..< n] xs ! k = f k"
proof (induction n)
  case 0
  then show ?case by simp
next
  case (Suc n)
  let ?g = "fold (\<lambda>k g. u8_set g (int k) (f k)) [0 ..< n] xs"
  have len: "length ?g = length xs"
    by (rule fold_store_length)
  have step: "fold (\<lambda>k g. u8_set g (int k) (f k)) [0 ..< Suc n] xs = u8_set ?g (int n) (f n)"
    by simp
  show ?case
  proof (cases "k = n")
    case True
    with Suc.prems len show ?thesis
      unfolding step by (simp add: u8_set_def)
  next
    case False
    with Suc len show ?thesis
      unfolding step by (simp add: u8_set_def)
  qed
qed

lemma grayscale_nth:
  assumes "length data = 4 * nat (width * height)" and "k < nat (width * height)"
  shows "grayscale data width height ! k =
     gray_pixel (Some (data ! (4 * k))) (Some (data ! (4 * k + 1)))
       (Some (data ! (4 * k + 2))) (Some (data ! (4 * k + 3)))"
proof -
  have n: "(length data + 3) div 4 = nat (width * height)"
    using assms(1) by simp
  have "grayscale data width height ! k =
      gray_pixel (u8_get data (4 * int k)) (u8_get data (4 * int k + 1))
        (u8_get data (4 * int k + 2)) (u8_get data (4 * int k + 3))"
    unfolding grayscale_def Let_def n
    using assms(2) by (subst fold_store_nth) simp_all
  moreover have ch: "u8_get data (4 * int k + j) = Some (data ! (4 * k + nat j))"
    if "0 \<le> j" "j < 4" for j
    using that assms by (auto simp: u8_get_def nat_add_distrib nat_mult_distrib)
  ultimately show ?thesis
    using ch [of 0] ch [of 1] ch [of 2] ch [of 3] by simp
qed

lemma grayscale_length: "length (grayscale data width height) = nat (width * height)"
  by (simp add: grayscale_def Let_def fold_store_length)

lemma luminance_Some:
  "\<exists>l. luminance (Some r) (Some g) (Some b) (Some a) = Num l \<and> 0 \<le> l"
proof -
  have c: "0 \<le> round_double 0.299" "0 \<le> round_double 0.587" "0 \<le> round_double 0.114"
    by (simp_all add: round_double_nonneg)
  have nn: "0 \<le> d_mul (d_add (d_add (d_mul (round_double 0.299) (real r))
      (d_mul (round_double 0.587) (real g))) (d_mul (round_double 0.114) (real b))) t"
    if "0 \<le> t" for t
    unfolding d_mul_def d_add_def using c that
    by (intro round_double_nonneg mult_nonneg_nonneg add_nonneg_nonneg) simp_all
  from nn [of "1.5"] nn [of "1.0"] show ?thesis
    by (simp add: luminance_def)
qed

lemma gray_pixel_floor:
  assumes "luminance r g b a = Num l" and "0 \<le> l"
  shows "int (gray_pixel r g b a) = \<lfloor>min 255 l\<rfloor>"
proof -
  have "0 \<le> \<lfloor>min 255 l\<rfloor>" "\<lfloor>min 255 l\<rfloor> < 256"
    using assms(2) by (auto simp: min_def floor_less_iff)
  then show ?thesis
    using assms by (simp add: gray_pixel_def)
qed

lemma binarize_example:
  "binarize [0, 0, 50, 0, 6, 6, 6, 200] 2 1 = [0, 255]"
  "binarize [4, 4, 4, 255] 1 1 = [0]"
  "luminance (Some 6) (Some 6) (Some 6) (Some 200) = Num 6"
  "luminance (Some 4) (Some 4) (Some 4) (Some 255) = Num (6755399441055743 / 1125899906842624)"
  by code_simp+

text \<open>
  Claim C9, as stated, fails: the pixel (0, 0, 50) with alpha 0 has the luminance 5.7
  (5.7000000000000002 as computed in doubles), above the threshold 5, and is background,
  since the gray image stores 5.
\<close>

theorem binarize_counterexample:
  "0.299 * 0 + 0.587 * 0 + 0.114 * 50 = (5.7 :: real) \<and>
   js_gt (js_min (Num 255) (luminance (Some 0) (Some 0) (Some 50) (Some 0)))
     (Num (thresholdValue CONFIG)) \<and>
   binarize [0, 0, 50, 0] 1 1 = [0]"
proof -
  have "js_gt (js_min (Num 255) (luminance (Some 0) (Some 0) (Some 50) (Some 0)))
     (Num (thresholdValue CONFIG))"
    by code_simp
  moreover have "binarize [0, 0, 50, 0] 1 1 = [0]"
    by code_simp
  ultimately show ?thesis
    by simp
qed

text \<open>
  Claim C9, amended. For pixel data of 4 bytes per pixel, a pixel is foreground if and only
  if its luminance as computed in doubles (boosted, clamped to 255), truncated to the
  integer the 8-bit gray image stores, exceeds the threshold: with the threshold 5, if
  and only if the computed, clamped luminance is at least 6.
\<close>

theorem binarize_pixel:
  assumes "length data = 4 * nat (width * height)" and "k < nat (width * height)"
  shows "\<exists>l. luminance (Some (data ! (4 * k))) (Some (data ! (4 * k + 1)))
              (Some (data ! (4 * k + 2))) (Some (data ! (4 * k + 3))) = Num l \<and>
           binarize data width height ! k =
             (if real_of_int \<lfloor>min 255 l\<rfloor> > thresholdValue CONFIG then 255 else 0) \<and>
           (binarize data width height ! k = 255 \<longleftrightarrow> min 255 l \<ge> 6)"
proof -
  let ?r = "Some (data ! (4 * k))" and ?g = "Some (data ! (4 * k + 1))"
  let ?b = "Some (data ! (4 * k + 2))" and ?a = "Some (data ! (4 * k + 3))"
  from luminance_Some obtain l where l: "luminance ?r ?g ?b ?a = Num l" "0 \<le> l"
    by blast
  have g: "int (grayscale data width height ! k) = \<lfloor>min 255 l\<rfloor>"
    using gray_pixel_floor [OF l] by (simp add: grayscale_nth [OF assms])
  have b: "binarize data width height ! k = threshold_pixel (grayscale data width height ! k)"
    using assms(2) by (simp add: binarize_def grayscale_length)
  have t: "thresholdValue CONFIG = 5"
    by (simp add: CONFIG_def)
  have "real (grayscale data width height ! k) = real_of_int \<lfloor>min 255 l\<rfloor>"
    using arg_cong [OF g, of real_of_int] by simp
  then have 1: "binarize data width height ! k =
      (if real_of_int \<lfloor>min 255 l\<rfloor> > thresholdValue CONFIG then 255 else 0)"
    by (simp add: b threshold_pixel_def)
  have "5 < \<lfloor>min 255 l\<rfloor> \<longleftrightarrow> 6 \<le> \<lfloor>min 255 l\<rfloor>"
    by linarith
  also have "\<dots> \<longleftrightarrow> min 255 l \<ge> 6"
    using le_floor_iff [of 6 "min 255 l"] by simp
  finally have "real_of_int \<lfloor>min 255 l\<rfloor> > 5 \<longleftrightarrow> min 255 l \<ge> 6"
    by simp
  with 1 t have 2: "binarize data width height ! k = 255 \<longleftrightarrow> min 255 l \<ge> 6"
    by simp
  show ?thesis
    using l(1) 1 2 by blast
qed

text \<open>
  Two pixels: (6, 6, 6) with alpha 200 has the luminance 6 and is foreground; (4, 4, 4) with
  alpha 255 has the luminance 5.999999999999999 in doubles (6 in exact arithmetic) and is
  background.
\<close>

theorem binarize_pixel_witness:
  "length [0, 0, 50, 0, 6, 6, 6, 200 :: nat] = 4 * nat (2 * 1) \<and> 1 < nat (2 * 1) \<and>
   binarize [0, 0, 50, 0, 6, 6, 6, 200] 2 1 ! 1 = 255 \<and>
   luminance (Some 6) (Some 6) (Some 6) (Some 200) = Num 6 \<and>
   binarize [4, 4, 4, 255] 1 1 ! 0 = 0 \<and>
   luminance (Some 4) (Some 4) (Some 4) (Some 255) = Num (6755399441055743 / 1125899906842624)"
  using binarize_pixel [of "[0, 0, 50, 0, 6, 6, 6, 200]" 2 1 1]
    binarize_pixel [of "[4, 4, 4, 255]" 1 1 0]
  by (simp add: binarize_example)

section \<open>The contours traced\<close>

lemma u8_get_set_same: "u8_get a i = Some v \<Longrightarrow> u8_get (u8_set a i w) i = Some w"
  by (auto simp: u8_get_def u8_set_def split: if_splits)

lemma u8_get_set_keep: "u8_get a j = Some w \<Longrightarrow> u8_get (u8_set a i w) j = Some w"
  by (auto simp: u8_get_def u8_set_def nth_list_update split: if_splits)

lemma traced_mark:
  assumes "traced width height visited pts" and "in_image width height q"
    and "u8_get visited (snd q * width + fst q) = Some 0"
  shows "traced width height (u8_set visited (snd q * width + fst q) 1) (pts @ [q])"
proof -
  have "q \<notin> set pts"
    using assms(1,3) by (auto simp: traced_def)
  then show ?thesis
    using assms by (auto simp: traced_def u8_get_set_keep u8_get_set_same)
qed

lemma free_pixel_in_image: "free_pixel binary visited width height q \<Longrightarrow> in_image width height q"
  by (cases q) (auto simp: free_pixel_def in_image_def)

lemma traced_take_pixel:
  assumes "traced width height visited (pre @ contour)"
    and "free_pixel binary visited width height q"
    and "take_pixel width (visited, contour, stack) q = (visited', contour', stack')"
  shows "traced width height visited' (pre @ contour')"
  using traced_mark [OF assms(1) free_pixel_in_image [OF assms(2)] free_pixel_unvisited [OF assms(2)]]
    assms(3)
  by (auto simp: take_pixel_def)

lemma traced_step:
  assumes "traced width height visited (pre @ contour)"
    and "trace_step binary width height (visited, contour, stack) = (visited', contour', stack')"
  shows "traced width height visited' (pre @ contour')"
proof (cases stack)
  case Nil
  with assms show ?thesis by simp
next
  case (Cons p rest)
  show ?thesis
  proof (cases "neighbor_scan binary visited width height p")
    case (Some q)
    with assms(2) Cons have "take_pixel width (visited, contour, rest) q = (visited', contour', stack')"
      by simp
    from traced_take_pixel [OF assms(1) neighbor_scan_free [OF Some] this] show ?thesis .
  next
    case None
    show ?thesis
    proof (cases "gap_scan binary visited width height p")
      case (Some q)
      show ?thesis
      proof (cases "rest = [] \<and> length contour > 1")
        case True
        with assms(2) Cons None Some
        have "take_pixel width (visited, contour, rest) q = (visited', contour', stack')"
          by simp
        from traced_take_pixel [OF assms(1) gap_scan_free [OF Some] this] show ?thesis .
      next
        case False
        with assms Cons None show ?thesis by auto
      qed
    next
      case gap: None
      with assms Cons None show ?thesis by (auto split: if_splits)
    qed
  qed
qed

lemma traced_loop:
  "traced width height visited (pre @ contour) \<Longrightarrow>
   trace_loop binary width height (visited, contour, stack) = (visited', contour') \<Longrightarrow>
   traced width height visited' (pre @ contour')"
proof (induction binary width height "(visited, contour, stack)"
    arbitrary: visited contour stack rule: trace_loop.induct)
  case (1 binary width height visited contour stack)
  show ?case
  proof (cases "stack = []")
    case True
    with "1.prems" show ?thesis by (simp add: trace_loop.simps)
  next
    case False
    obtain v c s where step: "trace_step binary width height (visited, contour, stack) = (v, c, s)"
      by (cases "trace_step binary width height (visited, contour, stack)") auto
    have t: "traced width height v (pre @ c)"
      by (rule traced_step [OF "1.prems"(1) step])
    have "trace_loop binary width height (v, c, s) = (visited', contour')"
      using "1.prems"(2) False step by (simp add: trace_loop.simps [of _ _ _ visited])
    from "1.hyps" [OF False step t this] show ?thesis .
  qed
qed

lemma traced_traceContour:
  assumes "traced width height visited pre" and "in_image width height (x, y)"
    and "u8_get visited (y * width + x) = Some 0"
    and "traceContour binary visited width height x y = (visited', contour)"
  shows "traced width height visited' (pre @ contour)"
proof -
  have "traced width height (u8_set visited (y * width + x) 1) (pre @ [(x, y)])"
    using traced_mark [OF assms(1,2)] assms(3) by simp
  moreover have "trace_loop binary width height
      (u8_set visited (y * width + x) 1, [(x, y)], [(x, y)]) = (visited', contour)"
    using assms(4) by (simp only: traceContour_def)
  ultimately show ?thesis
    by (rule traced_loop)
qed

lemma interior_in_image: "p \<in> set (interior width height) \<Longrightarrow> in_image width height p"
  by (auto simp: interior_def in_image_def)

lemma traced_prefix: "traced width height visited (pre @ c) \<Longrightarrow> traced width height visited pre"
  by (auto simp: traced_def)

lemma scan_inv_pixel:
  assumes "scan_inv width height st" and "in_image width height p"
  shows "scan_inv width height (scan_pixel blurred width height p st)"
proof -
  obtain x y where p: "p = (x, y)" by (cases p)
  obtain visited contours where st: "st = (visited, contours)" by (cases st)
  show ?thesis
  proof (cases "u8_get blurred (y * width + x) = Some 255 \<and> u8_get visited (y * width + x) = Some 0")
    case False
    with assms show ?thesis
      by (auto simp: scan_pixel_def p st)
  next
    case True
    obtain v c where tc: "traceContour blurred visited width height x y = (v, c)"
      by (cases "traceContour blurred visited width height x y")
    have t: "traced width height visited (concat contours)"
      using assms(1) by (simp add: scan_inv_def st)
    have "traced width height v (concat contours @ c)"
      using traced_traceContour [OF t _ _ tc] True assms(2) by (simp add: p)
    then show ?thesis
      using True tc assms(1) traced_prefix [of width height v "concat contours" c]
      by (auto simp: scan_pixel_def p st scan_inv_def)
  qed
qed

lemma scan_inv_fold:
  "scan_inv width height st \<Longrightarrow> \<forall>p \<in> set ps. in_image width height p \<Longrightarrow>
   scan_inv width height (fold (scan_pixel blurred width height) ps st)"
  by (induction ps arbitrary: st) (simp_all add: scan_inv_pixel)

lemma findContours_invariant:
  "distinct (concat (findContours binary width height)) \<and>
   (\<forall>c \<in> set (findContours binary width height).
      length c > 2 \<and> (\<forall>p \<in> set c. in_image width height p))"
proof -
  let ?blurred = "blur (map (\<lambda>v. if v > 0 then 255 else 0) binary) width height"
  let ?st = "fold (scan_pixel ?blurred width height) (interior width height)
                (replicate (length ?blurred) 0, [])"
  have "scan_inv width height (replicate (length ?blurred) 0, [])"
    by (simp add: scan_inv_def traced_def)
  then have "scan_inv width height ?st"
    by (rule scan_inv_fold) (simp add: interior_in_image)
  moreover have "findContours binary width height = snd ?st"
    by (simp add: findContours_def Let_def)
  ultimately show ?thesis
    by (cases ?st) (auto simp: scan_inv_def traced_def)
qed

text \<open>
  Claim C10. Every contour \<open>findContours\<close> returns has at least 3 points, pairwise
  distinct, all inside the image; and two contours at different places of the list
  returned share no point.
\<close>

theorem findContours_contours:
  "(\<forall>c \<in> set (findContours binary width height).
      3 \<le> length c \<and> distinct c \<and>
      (\<forall>(x, y) \<in> set c. 0 \<le> x \<and> x < width \<and> 0 \<le> y \<and> y < height)) \<and>
   (\<forall>i j. i < j \<and> j < length (findContours binary width height) \<longrightarrow>
      set (findContours binary width height ! i) \<inter> set (findContours binary width height ! j) = {})"
proof -
  let ?cs = "findContours binary width height"
  have d: "distinct (concat ?cs)"
    and l: "\<And>c. c \<in> set ?cs \<Longrightarrow> length c > 2"
    and b: "\<And>c p. c \<in> set ?cs \<Longrightarrow> p \<in> set c \<Longrightarrow> in_image width height p"
    using findContours_invariant [of binary width height] by auto
  have ne: "[] \<notin> set ?cs"
    using l by fastforce
  have dc: "distinct ?cs"
    using d ne by (simp add: distinct_concat_iff)
  have each: "3 \<le> length c \<and> distinct c \<and>
      (\<forall>(x, y) \<in> set c. 0 \<le> x \<and> x < width \<and> 0 \<le> y \<and> y < height)"
    if "c \<in> set ?cs" for c
    using that d l [OF that] b [OF that] by (auto simp: distinct_concat_iff in_image_def)
  have disj: "set (?cs ! i) \<inter> set (?cs ! j) = {}" if "i < j" "j < length ?cs" for i j
  proof -
    have "?cs ! i \<noteq> ?cs ! j"
      using that dc by (simp add: nth_eq_iff_index_eq)
    moreover have "?cs ! i \<in> set ?cs" "?cs ! j \<in> set ?cs"
      using that by simp_all
    ultimately show ?thesis
      using d by (simp add: distinct_concat_iff)
  qed
  show ?thesis
    using each disj by blast
qed

lemma findContours_example:
  "findContours
     [0, 0, 0, 0, 0, 0, 0, 0, 0, 0, 0, 0,
      0, 0, 0, 0, 0, 0, 0, 0, 0, 0, 0, 0,
      0, 255, 255, 0, 0, 0, 0, 0, 0, 255, 255, 0,
      0, 0, 0, 0, 0, 0, 0, 0, 0, 0, 0, 0,
      0, 0, 0, 0, 0, 0, 0, 0, 0, 0, 0, 0] 12 5 =
   [[(1, 1), (2, 1), (1, 2), (2, 2), (1, 3), (2, 3)],
    [(9, 1), (10, 1), (9, 2), (10, 2), (9, 3), (10, 3)]]"
  by code_simp

text \<open>A 12 by 5 image with two strokes: two contours of six points each.\<close>

theorem findContours_contours_witness:
  "findContours
     [0, 0, 0, 0, 0, 0, 0, 0, 0, 0, 0, 0,
      0, 0, 0, 0, 0, 0, 0, 0, 0, 0, 0, 0,
      0, 255, 255, 0, 0, 0, 0, 0, 0, 255, 255, 0,
      0, 0, 0, 0, 0, 0, 0, 0, 0, 0, 0, 0,
      0, 0, 0, 0, 0, 0, 0, 0, 0, 0, 0, 0] 12 5 =
   [[(1, 1), (2, 1), (1, 2), (2, 2), (1, 3), (2, 3)],
    [(9, 1), (10, 1), (9, 2), (10, 2), (9, 3), (10, 3)]] \<and>
   distinct [(1 :: int, 1 :: int), (2, 1), (1, 2), (2, 2), (1, 3), (2, 3)] \<and>
   set [(1 :: int, 1 :: int), (2, 1), (1, 2), (2, 2), (1, 3), (2, 3)] \<inter>
     set [(9, 1), (10, 1), (9, 2), (10, 2), (9, 3), (10, 3)] = {}"
  using findContours_contours [of "[0, 0, 0, 0, 0, 0, 0, 0, 0, 0, 0, 0,
      0, 0, 0, 0, 0, 0, 0, 0, 0, 0, 0, 0,
      0, 255, 255, 0, 0, 0, 0, 0, 0, 255, 255, 0,
      0, 0, 0, 0, 0, 0, 0, 0, 0, 0, 0, 0,
      0, 0, 0, 0, 0, 0, 0, 0, 0, 0, 0, 0]" 12 5]
  by (simp add: findContours_example)

lemma set_ring_offsets:
  "set (ring_offsets r) = {(dx, dy). \<bar>dx\<bar> \<le> r \<and> \<bar>dy\<bar> \<le> r \<and> \<not> (dx = 0 \<and> dy = 0)}"
  by (auto simp: ring_offsets_def)

lemma find_append:
  "find P (xs @ ys) = (case find P xs of Some x \<Rightarrow> Some x | None \<Rightarrow> find P ys)"
  by (induction xs) simp_all

lemma set_ring_shift:
  "set (map (\<lambda>(dx, dy). (x + dx, y + dy)) (ring_offsets r)) =
     {q. q \<noteq> (x, y) \<and> \<bar>fst q - x\<bar> \<le> r \<and> \<bar>snd q - y\<bar> \<le> r}"
proof (rule set_eqI)
  fix q :: point
  show "q \<in> set (map (\<lambda>(dx, dy). (x + dx, y + dy)) (ring_offsets r)) \<longleftrightarrow>
        q \<in> {q. q \<noteq> (x, y) \<and> \<bar>fst q - x\<bar> \<le> r \<and> \<bar>snd q - y\<bar> \<le> r}"
  proof
    assume "q \<in> set (map (\<lambda>(dx, dy). (x + dx, y + dy)) (ring_offsets r))"
    then show "q \<in> {q. q \<noteq> (x, y) \<and> \<bar>fst q - x\<bar> \<le> r \<and> \<bar>snd q - y\<bar> \<le> r}"
      by (auto simp: set_ring_offsets)
  next
    assume "q \<in> {q. q \<noteq> (x, y) \<and> \<bar>fst q - x\<bar> \<le> r \<and> \<bar>snd q - y\<bar> \<le> r}"
    then have "(fst q - x, snd q - y) \<in> set (ring_offsets r)"
      by (auto simp: set_ring_offsets prod_eq_iff)
    moreover have "q = (\<lambda>(dx, dy). (x + dx, y + dy)) (fst q - x, snd q - y)"
      by (simp add: prod_eq_iff)
    ultimately show "q \<in> set (map (\<lambda>(dx, dy). (x + dx, y + dy)) (ring_offsets r))"
      unfolding set_map by (rule image_eqI [rotated])
  qed
qed

lemma find_SomeD: "find P xs = Some x \<Longrightarrow> P x \<and> x \<in> set xs"
  by (induction xs) (auto split: if_splits)

lemma gap_scan_Some:
  assumes "gap_scan binary visited width height (x, y) = Some q"
  shows "free_pixel binary visited width height q \<and> q \<noteq> (x, y) \<and>
         \<bar>fst q - x\<bar> \<le> 3 \<and> \<bar>snd q - y\<bar> \<le> 3 \<and>
         ((\<exists>q'. free_pixel binary visited width height q' \<and> q' \<noteq> (x, y) \<and>
                \<bar>fst q' - x\<bar> \<le> 2 \<and> \<bar>snd q' - y\<bar> \<le> 2)
            \<longrightarrow> \<bar>fst q - x\<bar> \<le> 2 \<and> \<bar>snd q - y\<bar> \<le> 2)"
proof -
  let ?P = "free_pixel binary visited width height"
  let ?m = "map (\<lambda>(dx, dy). (x + dx, y + dy))"
  note s2 = set_ring_shift [of x y 2] and s3 = set_ring_shift [of x y 3]
  have g: "(case find ?P (?m (ring_offsets 2)) of Some q \<Rightarrow> Some q
            | None \<Rightarrow> find ?P (?m (ring_offsets 3))) = Some q"
    using assms by (simp add: gap_scan_def find_append)
  show ?thesis
  proof (cases "find ?P (?m (ring_offsets 2))")
    case (Some q2)
    with g have "q2 = q" by simp
    with Some have "?P q" "q \<in> set (?m (ring_offsets 2))"
      using find_SomeD [of ?P "?m (ring_offsets 2)" q] by simp_all
    then show ?thesis
      unfolding s2 by auto
  next
    case None
    with g have f3: "find ?P (?m (ring_offsets 3)) = Some q" by simp
    then have "?P q" "q \<in> set (?m (ring_offsets 3))"
      using find_SomeD [of ?P "?m (ring_offsets 3)" q] by simp_all
    moreover have "\<forall>q' \<in> set (?m (ring_offsets 2)). \<not> ?P q'"
      using None by (simp add: find_None_iff)
    ultimately show ?thesis
      unfolding s2 s3 by auto
  qed
qed

lemma gap_scan_None:
  "gap_scan binary visited width height (x, y) = None \<longleftrightarrow>
     \<not> (\<exists>q. free_pixel binary visited width height q \<and> q \<noteq> (x, y) \<and>
            \<bar>fst q - x\<bar> \<le> 3 \<and> \<bar>snd q - y\<bar> \<le> 3)"
proof -
  have "set (map (\<lambda>(dx, dy). (x + dx, y + dy)) (ring_offsets 2 @ ring_offsets 3)) =
      {q. q \<noteq> (x, y) \<and> \<bar>fst q - x\<bar> \<le> 3 \<and> \<bar>snd q - y\<bar> \<le> 3}"
    unfolding map_append set_append set_ring_shift by auto
  then show ?thesis
    unfolding gap_scan_def prod.case find_None_iff by auto
qed

lemma neighbor_scan_None:
  "neighbor_scan binary visited width height (x, y) = None \<longleftrightarrow>
     (\<forall>(dx, dy) \<in> set directions. \<not> free_pixel binary visited width height (x + dx, y + dy))"
  by (auto simp: neighbor_scan_def find_None_iff)

text \<open>
  Claim C7, amended. \<open>neighbor_scan\<close> is \<open>None\<close> exactly when none of the 8 neighbours
  is an unvisited shape pixel (\<open>neighbor_scan_None\<close>). In a turn of the loop that finds
  no neighbour, on a stack that held the current pixel only: when the contour holds more
  than one point, the walk takes the first unvisited shape pixel at distance 2, else at
  distance 3, marks it, appends it and goes on from it, and it stops when there is none;
  when the contour holds the start only, the walk stops without a search.
\<close>

theorem traceContour_gap_search:
  assumes "neighbor_scan binary visited width height (x, y) = None"
  shows "trace_loop binary width height (visited, contour, [(x, y)]) =
           (if length contour > 1 then
              (case gap_scan binary visited width height (x, y) of
                 Some q \<Rightarrow>
                   trace_loop binary width height
                     (u8_set visited (snd q * width + fst q) 1, contour @ [q], [q])
               | None \<Rightarrow> (visited, contour))
            else (visited, contour)) \<and>
         (\<forall>q. gap_scan binary visited width height (x, y) = Some q \<longrightarrow>
            free_pixel binary visited width height q \<and> q \<noteq> (x, y) \<and>
            \<bar>fst q - x\<bar> \<le> 3 \<and> \<bar>snd q - y\<bar> \<le> 3 \<and>
            ((\<exists>q'. free_pixel binary visited width height q' \<and> q' \<noteq> (x, y) \<and>
                   \<bar>fst q' - x\<bar> \<le> 2 \<and> \<bar>snd q' - y\<bar> \<le> 2)
               \<longrightarrow> \<bar>fst q - x\<bar> \<le> 2 \<and> \<bar>snd q - y\<bar> \<le> 2)) \<and>
         (gap_scan binary visited width height (x, y) = None \<longleftrightarrow>
            \<not> (\<exists>q. free_pixel binary visited width height q \<and> q \<noteq> (x, y) \<and>
                   \<bar>fst q - x\<bar> \<le> 3 \<and> \<bar>snd q - y\<bar> \<le> 3))"
proof -
  have stop: "trace_loop binary width height (visited, contour, []) = (visited, contour)"
    by (simp add: trace_loop.simps)
  have "trace_loop binary width height (visited, contour, [(x, y)]) =
      trace_loop binary width height (trace_step binary width height (visited, contour, [(x, y)]))"
    by (subst trace_loop.simps) simp
  also have "\<dots> = (if length contour > 1 then
              (case gap_scan binary visited width height (x, y) of
                 Some q \<Rightarrow>
                   trace_loop binary width height
                     (u8_set visited (snd q * width + fst q) 1, contour @ [q], [q])
               | None \<Rightarrow> (visited, contour))
            else (visited, contour))"
    using assms by (simp add: stop take_pixel_def split: option.split)
  finally show ?thesis
    using gap_scan_Some [of binary visited width height x y]
      gap_scan_None [of binary visited width height x y]
    by blast
qed

lemma trace_gap_example:
  "neighbor_scan gap_binary gap_visited 7 3 (2, 1) = None"
  "gap_scan gap_binary gap_visited 7 3 (2, 1) = Some (4, 1)"
  "trace_loop gap_binary 7 3 (gap_visited, [(1, 1), (2, 1)], [(2, 1)]) =
     (u8_set gap_visited 11 1, [(1, 1), (2, 1), (4, 1)])"
  by code_simp+

theorem traceContour_gap_search_witness:
  "neighbor_scan gap_binary gap_visited 7 3 (2, 1) = None \<and>
   gap_scan gap_binary gap_visited 7 3 (2, 1) = Some (4, 1) \<and>
   free_pixel gap_binary gap_visited 7 3 (4, 1) \<and>
   trace_loop gap_binary 7 3 (gap_visited, [(1, 1), (2, 1)], [(2, 1)]) =
     (u8_set gap_visited 11 1, [(1, 1), (2, 1), (4, 1)])"
  using traceContour_gap_search [OF trace_gap_example(1), of "[(1, 1), (2, 1)]"]
    trace_gap_example
  by simp

text \<open>
  Claim C7, as stated, fails: the start (1,1) has no neighbour, the stack is empty and the
  search of radius 2 would find (3,1), yet the walk stops with the start alone.
\<close>

theorem traceContour_gap_counterexample:
  "neighbor_scan lone_binary (u8_set (replicate 15 0) 6 1) 5 3 (1, 1) = None \<and>
   gap_scan lone_binary (u8_set (replicate 15 0) 6 1) 5 3 (1, 1) = Some (3, 1) \<and>
   traceContour lone_binary (replicate 15 0) 5 3 1 1 = (u8_set (replicate 15 0) 6 1, [(1, 1)])"
  by code_simp

section \<open>Where a contour starts\<close>

text \<open>
  The scan goes row by row and a walk takes only pixels the scan has not passed: every
  contour begins with its lowest point, the leftmost of its lowest points, and holds it
  once.
\<close>

lemma sorted_wrt_concat_map:
  assumes "sorted_wrt R ys" and "\<And>y. y \<in> set ys \<Longrightarrow> sorted_wrt P (g y)"
    and "\<And>y y' a b. R y y' \<Longrightarrow> a \<in> set (g y) \<Longrightarrow> b \<in> set (g y') \<Longrightarrow> P a b"
  shows "sorted_wrt P (concat (map g ys))"
  using assms by (induction ys) (auto simp: sorted_wrt_append)

lemma interior_sorted: "sorted_wrt row_before (interior width height)"
  unfolding interior_def
proof (rule sorted_wrt_concat_map [where R = "(<)"])
  show "sorted_wrt (<) [1 .. height - 2]" by simp
next
  fix y
  have "sorted_wrt (\<lambda>x x'. row_before (x, y) (x', y)) [1 .. width - 2]"
    by (rule sorted_wrt_mono_rel [OF _ sorted_wrt_upto]) (simp add: row_before_def)
  then show "sorted_wrt row_before (map (\<lambda>x. (x, y)) [1 .. width - 2])"
    by (simp add: sorted_wrt_map)
next
  fix y y' :: int and a b :: point
  assume "y < y'" "a \<in> set (map (\<lambda>x. (x, y)) [1 .. width - 2])"
    "b \<in> set (map (\<lambda>x. (x, y')) [1 .. width - 2])"
  then show "row_before a b"
    by (auto simp: row_before_def)
qed

lemma free_pixel_mark:
  "free_pixel binary (u8_set visited i 1) width height p \<Longrightarrow>
   free_pixel binary visited width height p"
  by (cases p) (auto simp: free_pixel_def u8_get_def u8_set_def nth_list_update split: if_splits)

lemma free_pixel_marked:
  "u8_get visited (snd p * width + fst p) = Some 0 \<Longrightarrow>
   \<not> free_pixel binary (u8_set visited (snd p * width + fst p) 1) width height p"
  by (cases p) (auto simp: free_pixel_def u8_get_def u8_set_def split: if_splits)

lemma free_pixel_ahead:
  assumes "\<forall>p \<in> N. \<not> free_pixel binary visited width height p"
    and "free_pixel binary visited width height q"
  shows "ahead binary width height N q"
  using assms by (cases q) (auto simp: ahead_def free_pixel_def in_image_def)

lemma ahead_take_pixel:
  assumes "\<forall>p \<in> N. \<not> free_pixel binary visited width height p"
    and "contour \<noteq> []" and "\<forall>p \<in> set (tl contour). ahead binary width height N p"
    and "free_pixel binary visited width height q"
    and "take_pixel width (visited, contour, stack) q = (visited', contour', stack')"
  shows "(\<forall>p \<in> N. \<not> free_pixel binary visited' width height p) \<and> contour' \<noteq> [] \<and>
         hd contour' = hd contour \<and> (\<forall>p \<in> set (tl contour'). ahead binary width height N p)"
proof -
  from assms(5) have v: "visited' = u8_set visited (snd q * width + fst q) 1"
    and c: "contour' = contour @ [q]"
    by (auto simp: take_pixel_def)
  have "\<forall>p \<in> N. \<not> free_pixel binary visited' width height p"
    unfolding v using assms(1) free_pixel_mark by blast
  moreover have "ahead binary width height N q"
    by (rule free_pixel_ahead [OF assms(1,4)])
  ultimately show ?thesis
    using assms(2,3) c by auto
qed

lemma ahead_step:
  assumes "\<forall>p \<in> N. \<not> free_pixel binary visited width height p"
    and "contour \<noteq> []" and "\<forall>p \<in> set (tl contour). ahead binary width height N p"
    and "trace_step binary width height (visited, contour, stack) = (visited', contour', stack')"
  shows "(\<forall>p \<in> N. \<not> free_pixel binary visited' width height p) \<and> contour' \<noteq> [] \<and>
         hd contour' = hd contour \<and> (\<forall>p \<in> set (tl contour'). ahead binary width height N p)"
proof (cases stack)
  case Nil
  with assms show ?thesis by simp
next
  case (Cons p rest)
  show ?thesis
  proof (cases "neighbor_scan binary visited width height p")
    case (Some q)
    with assms(4) Cons have "take_pixel width (visited, contour, rest) q = (visited', contour', stack')"
      by simp
    from ahead_take_pixel [OF assms(1-3) neighbor_scan_free [OF Some] this] show ?thesis .
  next
    case None
    show ?thesis
    proof (cases "gap_scan binary visited width height p")
      case (Some q)
      show ?thesis
      proof (cases "rest = [] \<and> length contour > 1")
        case True
        with assms(4) Cons None Some
        have "take_pixel width (visited, contour, rest) q = (visited', contour', stack')"
          by simp
        from ahead_take_pixel [OF assms(1-3) gap_scan_free [OF Some] this] show ?thesis .
      next
        case False
        with assms Cons None show ?thesis by auto
      qed
    next
      case gap: None
      with assms Cons None show ?thesis by (auto split: if_splits)
    qed
  qed
qed

lemma ahead_loop:
  "\<forall>p \<in> N. \<not> free_pixel binary visited width height p \<Longrightarrow> contour \<noteq> [] \<Longrightarrow>
   \<forall>p \<in> set (tl contour). ahead binary width height N p \<Longrightarrow>
   trace_loop binary width height (visited, contour, stack) = (visited', contour') \<Longrightarrow>
   (\<forall>p \<in> N. \<not> free_pixel binary visited' width height p) \<and> contour' \<noteq> [] \<and>
   hd contour' = hd contour \<and> (\<forall>p \<in> set (tl contour'). ahead binary width height N p)"
proof (induction binary width height "(visited, contour, stack)"
    arbitrary: visited contour stack rule: trace_loop.induct)
  case (1 binary width height visited contour stack)
  show ?case
  proof (cases "stack = []")
    case True
    with "1.prems" show ?thesis by (simp add: trace_loop.simps)
  next
    case False
    obtain v c s where step: "trace_step binary width height (visited, contour, stack) = (v, c, s)"
      by (cases "trace_step binary width height (visited, contour, stack)") auto
    from ahead_step [OF "1.prems"(1-3) step]
    have a: "\<forall>p \<in> N. \<not> free_pixel binary v width height p" "c \<noteq> []" "hd c = hd contour"
      "\<forall>p \<in> set (tl c). ahead binary width height N p"
      by auto
    have "trace_loop binary width height (v, c, s) = (visited', contour')"
      using "1.prems"(4) False step by (simp add: trace_loop.simps [of _ _ _ visited])
    from "1.hyps" [OF False step a(1,2,4) this] a(3) show ?thesis
      by simp
  qed
qed

lemma ahead_traceContour:
  assumes "\<forall>p \<in> N. \<not> free_pixel binary visited width height p"
    and "u8_get visited (y * width + x) = Some 0"
    and "traceContour binary visited width height x y = (visited', contour)"
  shows "(\<forall>p \<in> insert (x, y) N. \<not> free_pixel binary visited' width height p) \<and>
         contour \<noteq> [] \<and> hd contour = (x, y) \<and>
         (\<forall>p \<in> set (tl contour). ahead binary width height (insert (x, y) N) p)"
proof -
  let ?v = "u8_set visited (y * width + x) 1"
  have "\<forall>p \<in> insert (x, y) N. \<not> free_pixel binary ?v width height p"
    using assms(1) free_pixel_mark free_pixel_marked [of visited "(x, y)" width binary height]
      assms(2)
    by auto
  moreover have "trace_loop binary width height (?v, [(x, y)], [(x, y)]) = (visited', contour)"
    using assms(3) by (simp only: traceContour_def)
  ultimately show ?thesis
    using ahead_loop [of "insert (x, y) N" binary ?v width height "[(x, y)]" "[(x, y)]"
        visited' contour]
    by simp
qed


lemma fold_store_origin:
  "u8_get (fold (\<lambda>(x, y) a. u8_set a (y * width + x) (f x y)) ps a0) i = Some v \<Longrightarrow>
   u8_get a0 i = Some v \<or> (\<exists>(x, y) \<in> set ps. i = y * width + x)"
proof (induction ps arbitrary: a0)
  case Nil
  then show ?case by simp
next
  case (Cons p ps)
  obtain x y where p: "p = (x, y)" by (cases p)
  from Cons.prems have
    "u8_get (fold (\<lambda>(x, y) a. u8_set a (y * width + x) (f x y)) ps
       (u8_set a0 (y * width + x) (f x y))) i = Some v"
    by (simp add: p)
  from Cons.IH [OF this] show ?case
  proof
    assume a: "u8_get (u8_set a0 (y * width + x) (f x y)) i = Some v"
    show ?thesis
    proof (cases "i = y * width + x")
      case True
      then show ?thesis by (auto simp: p)
    next
      case False
      with a have "u8_get a0 i = Some v"
        by (auto simp: u8_get_def u8_set_def nth_list_update split: if_splits)
      then show ?thesis by simp
    qed
  next
    assume "\<exists>(x, y) \<in> set ps. i = y * width + x"
    then show ?thesis by auto
  qed
qed

lemma pixel_index_unique:
  fixes width :: int
  assumes "0 \<le> x" "x < width" "0 \<le> x'" "x' < width" "y * width + x = y' * width + x'"
  shows "x = x' \<and> y = y'"
proof -
  have m: "(y * width + x) mod width = x" "(y' * width + x') mod width = x'"
    using assms(1-4) by simp_all
  have x: "x = x'"
    using m(1) m(2) unfolding assms(5) by simp
  have d: "(y * width + x) div width = y" "(y' * width + x') div width = y'"
    using assms(1-4) by simp_all
  have "y = y'"
    using d(1) d(2) unfolding assms(5) by simp
  with x show ?thesis by simp
qed

lemma set_interior:
  "set (interior width height) = {(x, y). 1 \<le> x \<and> x \<le> width - 2 \<and> 1 \<le> y \<and> y \<le> height - 2}"
  by (auto simp: interior_def)

lemma blur_foreground:
  assumes "in_image width height p"
    and "u8_get (blur enhanced width height) (snd p * width + fst p) = Some 255"
  shows "p \<in> set (interior width height)"
proof -
  let ?f = "\<lambda>x y. case box_sum enhanced width x y of
                 Some s \<Rightarrow> if s > 255 * 1 then 255 else 0
               | None \<Rightarrow> (0::nat)"
  have "blur enhanced width height =
     fold (\<lambda>(x, y) a. u8_set a (y * width + x) (?f x y)) (interior width height)
       (replicate (length enhanced) 0)"
    by (simp add: blur_def)
  with assms(2) have
    "u8_get (fold (\<lambda>(x, y) a. u8_set a (y * width + x) (?f x y)) (interior width height)
       (replicate (length enhanced) 0)) (snd p * width + fst p) = Some 255"
    by simp
  from fold_store_origin [OF this]
  have "\<exists>(x, y) \<in> set (interior width height). snd p * width + fst p = y * width + x"
    by (auto simp: u8_get_def split: if_splits)
  then obtain x y where m: "(x, y) \<in> set (interior width height)"
    and e: "snd p * width + fst p = y * width + x"
    by auto
  from m have "0 \<le> x" "x < width"
    by (auto simp: set_interior)
  with assms(1) e have "fst p = x \<and> snd p = y"
    by (intro pixel_index_unique [of "fst p" width x "snd p" y]) (auto simp: in_image_def)
  with m show ?thesis by (cases p) simp
qed

lemma start_inv_fold:
  assumes "\<forall>q. ahead blurred width height {} q \<longrightarrow> q \<in> set (pre @ rest)"
    and "sorted_wrt row_before (pre @ rest)"
    and "start_inv blurred width height pre st"
  shows "start_inv blurred width height (pre @ rest) (fold (scan_pixel blurred width height) rest st)"
  using assms
proof (induction rest arbitrary: pre st)
  case Nil
  then show ?case by simp
next
  case (Cons p rest)
  obtain x y where p: "p = (x, y)" by (cases p)
  obtain visited contours where st: "st = (visited, contours)" by (cases st)
  from Cons.prems(3) have
    pre: "\<forall>q \<in> set pre. \<not> free_pixel blurred visited width height q"
    and cs: "\<forall>c \<in> set contours. c \<noteq> [] \<and> (\<forall>q \<in> set (tl c). row_before (hd c) q)"
    by (auto simp: start_inv_def st)
  have "start_inv blurred width height (pre @ [p]) (scan_pixel blurred width height p st)"
  proof (cases "u8_get blurred (y * width + x) = Some 255 \<and>
      u8_get visited (y * width + x) = Some 0")
    case False
    then have "\<not> free_pixel blurred visited width height p"
      by (auto simp: free_pixel_def p)
    with False pre cs show ?thesis
      by (auto simp: start_inv_def st p scan_pixel_def)
  next
    case True
    obtain visited' contour where
      tr: "traceContour blurred visited width height x y = (visited', contour)"
      by (cases "traceContour blurred visited width height x y")
    from ahead_traceContour [OF pre _ tr] True
    have v': "\<forall>q \<in> insert (x, y) (set pre). \<not> free_pixel blurred visited' width height q"
      and ne: "contour \<noteq> []" and hd: "hd contour = (x, y)"
      and tl: "\<forall>q \<in> set (tl contour). ahead blurred width height (insert (x, y) (set pre)) q"
      by auto
    have "row_before (hd contour) q" if "q \<in> set (tl contour)" for q
    proof -
      from tl that have a: "ahead blurred width height (insert (x, y) (set pre)) q"
        by simp
      then have "ahead blurred width height {} q"
        by (simp add: ahead_def)
      with Cons.prems(1) have "q \<in> set (pre @ p # rest)"
        by blast
      with a have "q \<in> set rest"
        by (auto simp: ahead_def p)
      with Cons.prems(2) have "row_before p q"
        by (auto simp: sorted_wrt_append)
      then show ?thesis by (simp add: hd p)
    qed
    with v' ne cs True tr show ?thesis
      by (auto simp: start_inv_def st p scan_pixel_def)
  qed
  moreover have "\<forall>q. ahead blurred width height {} q \<longrightarrow> q \<in> set ((pre @ [p]) @ rest)"
    using Cons.prems(1) by simp
  moreover have "sorted_wrt row_before ((pre @ [p]) @ rest)"
    using Cons.prems(2) by simp
  ultimately have "start_inv blurred width height ((pre @ [p]) @ rest)
     (fold (scan_pixel blurred width height) rest (scan_pixel blurred width height p st))"
    by (rule Cons.IH [rotated 2])
  then show ?case by simp
qed

lemma findContours_start:
  assumes "c \<in> set (findContours binary width height)"
  shows "c \<noteq> [] \<and> (\<forall>p \<in> set (tl c). row_before (hd c) p)"
proof -
  define blurred where "blurred = blur (map (\<lambda>v. if v > 0 then 255 else 0) binary) width height"
  have "\<forall>q. ahead blurred width height {} q \<longrightarrow> q \<in> set ([] @ interior width height)"
    using blur_foreground by (auto simp: ahead_def blurred_def)
  moreover have "sorted_wrt row_before ([] @ interior width height)"
    by (simp add: interior_sorted)
  moreover have "start_inv blurred width height [] (replicate (length blurred) 0, [])"
    by (simp add: start_inv_def)
  ultimately have "start_inv blurred width height ([] @ interior width height)
     (fold (scan_pixel blurred width height) (interior width height)
        (replicate (length blurred) 0, []))"
    by (rule start_inv_fold)
  moreover have "findContours binary width height =
     snd (fold (scan_pixel blurred width height) (interior width height)
            (replicate (length blurred) 0, []))"
    by (simp add: findContours_def blurred_def Let_def)
  ultimately show ?thesis
    using assms by (auto simp: start_inv_def split: prod.splits)
qed

lemma row_before_asym: "row_before a b \<Longrightarrow> \<not> row_before b a"
  by (auto simp: row_before_def)

lemma find_start_first:
  assumes "\<forall>i. 0 < i \<and> i < length c \<longrightarrow> row_before (c ! 0) (c ! i)"
  shows "m \<le> length c \<Longrightarrow>
     fold (\<lambda>i start.
            if snd (c ! i) < snd (c ! start) \<or>
               (snd (c ! i) = snd (c ! start) \<and> fst (c ! i) < fst (c ! start))
            then i else start) [1 ..< m] 0 = 0"
proof (induction m)
  case 0
  then show ?case by simp
next
  case (Suc m)
  show ?case
  proof (cases "m = 0")
    case True
    then show ?thesis by simp
  next
    case False
    then have upt: "[1 ..< Suc m] = [1 ..< m] @ [m]"
      by (simp add: upt_Suc_append)
    from False Suc.prems assms have "row_before (c ! 0) (c ! m)"
      by simp
    then have "\<not> row_before (c ! m) (c ! 0)"
      by (rule row_before_asym)
    then have "\<not> (snd (c ! m) < snd (c ! 0) \<or>
        (snd (c ! m) = snd (c ! 0) \<and> fst (c ! m) < fst (c ! 0)))"
      by (simp add: row_before_def)
    with Suc show ?thesis
      unfolding upt by auto
  qed
qed

lemma traced_nth_row_before:
  assumes "c \<in> set (findContours binary width height)" and "0 < i" and "i < length c"
  shows "row_before (c ! 0) (c ! i)"
proof -
  from findContours_start [OF assms(1)]
  have ne: "c \<noteq> []" and tl: "\<forall>p \<in> set (tl c). row_before (hd c) p"
    by auto
  from assms(2,3) have "c ! i = tl c ! (i - 1)" "i - 1 < length (tl c)"
    by (simp_all add: nth_tl)
  then have "c ! i \<in> set (tl c)"
    by (metis nth_mem)
  with tl ne show ?thesis
    by (simp add: hd_conv_nth)
qed

lemma traced_find_start:
  assumes "c \<in> set (findContours binary width height)"
  shows "find_start c = 0"
  unfolding find_start_def
  using traced_nth_row_before [OF assms] by (intro find_start_first) auto

lemma traced_swap_start:
  assumes "c \<in> set (findContours binary width height)"
  shows "swap_start c = c"
  by (simp add: swap_start_def traced_find_start [OF assms])

section \<open>The circularity of a contour\<close>

lemma traced_perimeter_pos:
  assumes "c \<in> set (findContours binary width height)"
  shows "0 < calculateContourPerimeter c"
proof (rule ccontr)
  assume "\<not> 0 < calculateContourPerimeter c"
  with perimeter_nonneg [of c] have z: "calculateContourPerimeter c = 0"
    by simp
  have l: "length c > 2" and d: "distinct c"
    using findContours_invariant [of binary width height] assms
    by (auto simp: distinct_concat_iff)
  from l have "0 < length c" "(0 + 1) mod length c = 1"
    by auto
  with perimeter_zero_next [OF z, of 0] have "c ! 1 = c ! 0"
    by simp
  moreover have "(c ! 1 = c ! 0) = (1 = (0::nat))"
    using d l by (intro nth_eq_iff_index_eq) auto
  ultimately show False
    by simp
qed



section \<open>The contour after calculateConvexHull\<close>

text \<open>
  Claim C2. \<^verbatim>\<open>calculateConvexHull\<close> is called on a contour of \<open>findContours\<close> only.
  Such a contour begins with its start point, so that the exchange of line 491 puts
  every point where it was: the array passed is, after the call, what it was before.
\<close>

theorem convex_hull_keeps_contour:
  assumes "contour \<in> set (findContours binary width height)"
  shows "swap_start contour = contour \<and>
         (\<exists>hullPts. calculateConvexHull contour = Some (contour, hullPts))"
proof -
  have "length contour > 2"
    using findContours_invariant [of binary width height] assms by blast
  then show ?thesis
    by (simp add: calculateConvexHull_def Let_def traced_swap_start [OF assms])
qed

text \<open>The first stroke of the image of 12 by 5 pixels.\<close>

theorem convex_hull_keeps_contour_witness:
  "[(1, 1), (2, 1), (1, 2), (2, 2), (1, 3), (2, 3)] \<in> set (findContours
     [0, 0, 0, 0, 0, 0, 0, 0, 0, 0, 0, 0,
      0, 0, 0, 0, 0, 0, 0, 0, 0, 0, 0, 0,
      0, 255, 255, 0, 0, 0, 0, 0, 0, 255, 255, 0,
      0, 0, 0, 0, 0, 0, 0, 0, 0, 0, 0, 0,
      0, 0, 0, 0, 0, 0, 0, 0, 0, 0, 0, 0] 12 5) \<and>
   swap_start [(1, 1), (2, 1), (1, 2), (2, 2), (1, 3), (2, 3)] =
     [(1, 1), (2, 1), (1, 2), (2, 2), (1, 3), (2, 3)] \<and>
   map_option fst (calculateConvexHull [(1, 1), (2, 1), (1, 2), (2, 2), (1, 3), (2, 3)]) =
     Some [(1, 1), (2, 1), (1, 2), (2, 2), (1, 3), (2, 3)]"
  using convex_hull_keeps_contour [of "[(1, 1), (2, 1), (1, 2), (2, 2), (1, 3), (2, 3)]"
      "[0, 0, 0, 0, 0, 0, 0, 0, 0, 0, 0, 0,
      0, 0, 0, 0, 0, 0, 0, 0, 0, 0, 0, 0,
      0, 255, 255, 0, 0, 0, 0, 0, 0, 255, 255, 0,
      0, 0, 0, 0, 0, 0, 0, 0, 0, 0, 0, 0,
      0, 0, 0, 0, 0, 0, 0, 0, 0, 0, 0, 0]" 12 5]
  by (auto simp: findContours_example)

section \<open>The area of the hull\<close>

text \<open>
  Seen from the start point every other point of a contour lies in the half plane of the
  angles from 0 to \<open>\<pi>\<close>, \<open>\<pi>\<close> left out, where the order of the angles is the order
  of the cross product.
\<close>

lemma ccw_cross: "isCounterClockwise s p q \<longleftrightarrow> cross_at s p q > 0"
  by (simp add: isCounterClockwise_def cross_at_def)

lemma cross_at_self [simp]: "cross_at s a a = 0" "cross_at s s b = 0" "cross_at s a s = 0"
  by (simp_all add: cross_at_def)

lemma cross_at_flip: "cross_at s b a = - cross_at s a b"
  by (simp add: cross_at_def)

lemma parallel_trans_raw:
  fixes ax ay bx b_y cx cy :: int
  assumes "b_y > 0 \<or> (b_y = 0 \<and> bx > 0)"
    and "ax * b_y - ay * bx = 0" and "bx * cy - b_y * cx = 0"
  shows "ax * cy - ay * cx = 0"
proof -
  have y: "(ax * cy - ay * cx) * b_y = (bx * cy - b_y * cx) * ay + (ax * b_y - ay * bx) * cy"
    by (simp add: algebra_simps)
  have x: "(ax * cy - ay * cx) * bx = (bx * cy - b_y * cx) * ax + (ax * b_y - ay * bx) * cx"
    by (simp add: algebra_simps)
  from y x assms(2,3) have "(ax * cy - ay * cx) * b_y = 0" "(ax * cy - ay * cx) * bx = 0"
    by simp_all
  with assms(1) show ?thesis
    by auto
qed

lemma between_raw:
  fixes ax ay px py cx cy :: int
  assumes "ay > 0 \<or> (ay = 0 \<and> ax > 0)" and "py > 0 \<or> (py = 0 \<and> px > 0)"
    and "ax * py - ay * px = 0" and "ax * cy - ay * cx \<ge> 0" and "cx * py - cy * px \<ge> 0"
  shows "ax * cy - ay * cx = 0"
proof -
  have y: "(cx * py - cy * px) * ay + (ax * cy - ay * cx) * py = (ax * py - ay * px) * cy"
    by (simp add: algebra_simps)
  have x: "(cx * py - cy * px) * ax + (ax * cy - ay * cx) * px = (ax * py - ay * px) * cx"
    by (simp add: algebra_simps)
  from assms(2) show ?thesis
  proof
    assume p: "py > 0"
    have "0 \<le> ay"
      using assms(1) by auto
    with assms(4,5) p have "0 \<le> (cx * py - cy * px) * ay" "0 \<le> (ax * cy - ay * cx) * py"
      by (simp_all only: mult_nonneg_nonneg less_imp_le)
    moreover have "(cx * py - cy * px) * ay + (ax * cy - ay * cx) * py = 0"
      using y assms(3) by simp
    ultimately have "(ax * cy - ay * cx) * py = 0"
      by linarith
    with p show ?thesis by simp
  next
    assume p: "py = 0 \<and> px > 0"
    with assms(3) have "ay = 0"
      by simp
    with assms(1) have a: "ax > 0"
      by simp
    from assms(4,5) p a have "0 \<le> (cx * py - cy * px) * ax" "0 \<le> (ax * cy - ay * cx) * px"
      by (simp_all only: mult_nonneg_nonneg less_imp_le)
    moreover have "(cx * py - cy * px) * ax + (ax * cy - ay * cx) * px = 0"
      using x assms(3) by simp
    ultimately have "(ax * cy - ay * cx) * px = 0"
      by linarith
    with p show ?thesis by simp
  qed
qed

lemma row_before_vec:
  "row_before s a \<longleftrightarrow> (snd a - snd s > 0 \<or> (snd a - snd s = 0 \<and> fst a - fst s > 0))"
  by (auto simp: row_before_def)

lemma cross_parallel_trans:
  assumes "row_before s b" and "cross_at s a b = 0" and "cross_at s b c = 0"
  shows "cross_at s a c = 0"
  using parallel_trans_raw [where b_y = "snd b - snd s" and bx = "fst b - fst s"
      and ax = "fst a - fst s" and ay = "snd a - snd s"
      and cy = "snd c - snd s" and cx = "fst c - fst s"] assms
  unfolding cross_at_def row_before_vec by blast

lemma cross_between:
  assumes "row_before s a" and "row_before s p" and "cross_at s a p = 0"
    and "cross_at s a c \<ge> 0" and "cross_at s c p \<ge> 0"
  shows "cross_at s a c = 0"
  using between_raw [where ay = "snd a - snd s" and ax = "fst a - fst s"
      and py = "snd p - snd s" and px = "fst p - fst s"
      and cx = "fst c - fst s" and cy = "snd c - snd s"] assms
  unfolding cross_at_def row_before_vec by blast

lemma atan2_upper:
  assumes "y > 0"
  shows "js_atan2 y x = pi / 2 - arctan (x / y)"
proof -
  consider (pos) "x > 0" | (neg) "x < 0" | (zero) "x = 0"
    by linarith
  then show ?thesis
  proof cases
    case pos
    then have "x / y > 0" using assms by simp
    then have "arctan (1 / (x / y)) = pi / 2 - arctan (x / y)"
      using arctan_inverse [of "x / y"] pos assms by simp
    with pos show ?thesis by (simp add: js_atan2_def)
  next
    case neg
    then have "x / y < 0" using assms by (simp add: divide_neg_pos)
    then have "arctan (1 / (x / y)) = - (pi / 2) - arctan (x / y)"
      using arctan_inverse [of "x / y"] neg assms by simp
    with neg assms show ?thesis by (simp add: js_atan2_def)
  next
    case zero
    with assms show ?thesis by (simp add: js_atan2_def)
  qed
qed

lemma atan2_axis: "x > 0 \<Longrightarrow> js_atan2 0 x = 0"
  by (simp add: js_atan2_def)

lemma polar_angle_cross:
  assumes "row_before s a" and "row_before s b" and "cross_at s a b > 0"
  shows "polar_angle s a < polar_angle s b"
proof -
  define ax ay bx b_y where "ax = real_of_int (fst a - fst s)" and "ay = real_of_int (snd a - snd s)"
    and "bx = real_of_int (fst b - fst s)" and "b_y = real_of_int (snd b - snd s)"
  have a: "ay > 0 \<or> (ay = 0 \<and> ax > 0)" and b: "b_y > 0 \<or> (b_y = 0 \<and> bx > 0)"
    using assms(1,2) by (auto simp: row_before_vec ax_def ay_def bx_def b_y_def)
  have "real_of_int (cross_at s a b) > 0"
    using assms(3) by simp
  then have c: "ax * b_y - ay * bx > 0"
    by (simp add: cross_at_def ax_def ay_def bx_def b_y_def)
  have pa: "polar_angle s a = js_atan2 ay ax" and pb: "polar_angle s b = js_atan2 b_y bx"
    by (simp_all add: polar_angle_def ax_def ay_def bx_def b_y_def)
  from b have bpos: "b_y > 0"
  proof
    assume "b_y = 0 \<and> bx > 0"
    with c have "ay * bx < 0" by simp
    with \<open>b_y = 0 \<and> bx > 0\<close> have "ay < 0"
      by (simp add: mult_less_0_iff)
    with a show ?thesis by simp
  qed simp
  from a show ?thesis
  proof
    assume apos: "ay > 0"
    from c have "bx * ay < ax * b_y"
      by (simp add: mult.commute)
    then have "bx / b_y < ax / ay"
      using apos bpos by (simp add: field_simps)
    then have "arctan (bx / b_y) < arctan (ax / ay)"
      by (simp only: arctan_less_iff)
    then show ?thesis
      by (simp add: pa pb atan2_upper [OF apos] atan2_upper [OF bpos])
  next
    assume "ay = 0 \<and> ax > 0"
    then have "js_atan2 ay ax = 0"
      by (simp add: atan2_axis)
    moreover have "0 < pi / 2 - arctan (bx / b_y)"
      using arctan_ubound [of "bx / b_y"] by simp
    ultimately show ?thesis
      by (simp add: pa pb atan2_upper [OF bpos])
  qed
qed

lemma polar_angle_sorted:
  assumes "row_before s a" and "row_before s b" and "polar_angle s a \<le> polar_angle s b"
  shows "cross_at s a b \<ge> 0"
proof (rule ccontr)
  assume "\<not> cross_at s a b \<ge> 0"
  then have "cross_at s b a > 0"
    using cross_at_flip [of s b a] by simp
  from polar_angle_cross [OF assms(2,1) this] assms(3) show False
    by simp
qed

lemma hull_pop_take:
  "\<exists>k. hull_pop h p = take k h \<and> k \<le> length h \<and> (h \<noteq> [] \<longrightarrow> 1 \<le> k) \<and>
       (2 \<le> k \<longrightarrow> isCounterClockwise (h ! (k - 2)) (h ! (k - 1)) p) \<and>
       (k < length h \<longrightarrow> \<not> isCounterClockwise (h ! (k - 1)) (h ! k) p)"
proof (induction h p rule: hull_pop.induct)
  case (1 h p)
  let ?n = "length h"
  show ?case
  proof (cases "?n > 1 \<and> \<not> isCounterClockwise (h ! (?n - 2)) (h ! (?n - 1)) p")
    case True
    from "1.IH" [OF True] obtain k where
      k: "hull_pop (butlast h) p = take k (butlast h)" "k \<le> length (butlast h)"
      "butlast h \<noteq> [] \<longrightarrow> 1 \<le> k"
      "2 \<le> k \<longrightarrow> isCounterClockwise (butlast h ! (k - 2)) (butlast h ! (k - 1)) p"
      "k < length (butlast h) \<longrightarrow> \<not> isCounterClockwise (butlast h ! (k - 1)) (butlast h ! k) p"
      by blast
    from True have ne: "butlast h \<noteq> []"
      by (cases h rule: rev_cases) auto
    with k(3) have k1: "1 \<le> k" by simp
    have kn: "k \<le> ?n - 1"
      using k(2) by simp
    have e: "hull_pop h p = take k h"
      using True k(1) kn by (subst hull_pop.simps) (simp add: butlast_conv_take min_def)
    have c2: "isCounterClockwise (h ! (k - 2)) (h ! (k - 1)) p" if "2 \<le> k"
      using k(4) that kn by (simp add: nth_butlast)
    have c3: "\<not> isCounterClockwise (h ! (k - 1)) (h ! k) p"
    proof (cases "k < ?n - 1")
      case True
      with k(5) k1 show ?thesis
        by (simp add: nth_butlast)
    next
      case False
      with kn have "k = ?n - 1" by simp
      moreover from this True have "k - 1 = ?n - 2"
        by simp
      ultimately show ?thesis
        using True by simp
    qed
    show ?thesis
      using e kn k1 c2 c3 by (intro exI [of _ k]) auto
  next
    case False
    then have e: "hull_pop h p = h"
      by (subst hull_pop.simps) auto
    have "2 \<le> ?n \<longrightarrow> isCounterClockwise (h ! (?n - 2)) (h ! (?n - 1)) p"
      using False by auto
    with e show ?thesis
      by (intro exI [of _ ?n]) (auto simp: Suc_le_eq)
  qed
qed

lemma hull_inv_step:
  assumes inv: "hull_inv s seen h"
    and srt: "sorted_wrt (\<lambda>a b. cross_at s a b \<ge> 0) (seen @ [p])"
    and up: "\<forall>q \<in> set (seen @ [p]). row_before s q"
  shows "hull_inv s (seen @ [p]) (hull_pop h p @ [p])"
proof -
  from inv obtain h' where h: "h = s # h'" and ne: "h' \<noteq> []" and sub: "set h' \<subseteq> set seen"
    and sh: "sorted_wrt (\<lambda>a b. cross_at s a b \<ge> 0) h'"
    and first: "length h' \<ge> 2 \<longrightarrow> cross_at s (h' ! 0) (h' ! 1) > 0"
    and line: "length h' = 1 \<longrightarrow> (\<forall>a \<in> set seen. \<forall>b \<in> set seen. cross_at s a b = 0)"
    by (auto simp: hull_inv_def)
  from hull_pop_take [of h p] obtain k where
    k: "hull_pop h p = take k h" "k \<le> length h" "1 \<le> k"
    and c2: "2 \<le> k \<longrightarrow> isCounterClockwise (h ! (k - 2)) (h ! (k - 1)) p"
    and c3: "k < length h \<longrightarrow> \<not> isCounterClockwise (h ! (k - 1)) (h ! k) p"
    using h by auto
  define m where "m = k - 1"
  have km: "k = Suc m" and ml: "m \<le> length h'"
    using k(2,3) h by (simp_all add: m_def)
  have e: "hull_pop h p @ [p] = s # (take m h' @ [p])"
    unfolding k(1) by (simp add: h km)
  have before: "cross_at s a p \<ge> 0" if "a \<in> set seen" for a
    using srt that by (simp add: sorted_wrt_append)
  have a0: "h' ! 0 \<in> set seen"
    using ne sub by (metis length_greater_0_conv nth_mem subsetD)
  have s1: "set (take m h' @ [p]) \<subseteq> set (seen @ [p])"
    using sub set_take_subset [of m h'] by auto
  have s2: "sorted_wrt (\<lambda>a b. cross_at s a b \<ge> 0) (take m h' @ [p])"
  proof -
    have "sorted_wrt (\<lambda>a b. cross_at s a b \<ge> 0) (take m h')"
      using sh by (rule sorted_wrt_take)
    moreover have "\<forall>a \<in> set (take m h'). cross_at s a p \<ge> 0"
      using before sub set_take_subset [of m h'] by blast
    ultimately show ?thesis
      by (simp add: sorted_wrt_append)
  qed
  have s3: "cross_at s ((take m h' @ [p]) ! 0) ((take m h' @ [p]) ! 1) > 0"
    if "length (take m h' @ [p]) \<ge> 2"
  proof -
    from that ml have m1: "m \<ge> 1"
      by simp
    show ?thesis
    proof (cases "m = 1")
      case True
      with c2 km have "isCounterClockwise (h ! 0) (h ! 1) p"
        by simp
      then have "cross_at s (h' ! 0) p > 0"
        by (simp add: ccw_cross h)
      with True ml show ?thesis
        by (simp add: nth_append)
    next
      case False
      with m1 have m2: "m \<ge> 2" by simp
      with ml first have "cross_at s (h' ! 0) (h' ! 1) > 0"
        by simp
      with m2 ml show ?thesis
        by (simp add: nth_append)
    qed
  qed
  have s4: "\<forall>a \<in> set (seen @ [p]). \<forall>b \<in> set (seen @ [p]). cross_at s a b = 0"
    if "length (take m h' @ [p]) = 1"
  proof -
    from that ml have m0: "m = 0"
      by simp
    have l2: "k < length h"
      using km m0 h ne by (cases h') simp_all
    with c3 km m0 have "\<not> isCounterClockwise (h ! 0) (h ! 1) p"
      by simp
    then have "\<not> cross_at s (h' ! 0) p > 0"
      by (simp add: ccw_cross h)
    with before [OF a0] have z: "cross_at s (h' ! 0) p = 0"
      by simp
    have r0: "row_before s (h' ! 0)" and rp: "row_before s p"
      using up a0 by auto
    have one: "length h' = 1"
    proof (rule ccontr)
      assume "length h' \<noteq> 1"
      moreover from ne have "length h' \<noteq> 0"
        by simp
      ultimately have two: "length h' \<ge> 2"
        by linarith
      with first have pos: "cross_at s (h' ! 0) (h' ! 1) > 0"
        by simp
      from two sub have "h' ! 1 \<in> set seen"
        by (metis Suc_1 Suc_le_lessD nth_mem subsetD One_nat_def)
      then have "cross_at s (h' ! 1) p \<ge> 0"
        by (rule before)
      from cross_between [OF r0 rp z _ this] pos show False
        by simp
    qed
    with line have all: "\<forall>a \<in> set seen. \<forall>b \<in> set seen. cross_at s a b = 0"
      by simp
    have ap: "cross_at s a p = 0" if "a \<in> set seen" for a
    proof -
      from all that a0 have "cross_at s a (h' ! 0) = 0"
        by blast
      from cross_parallel_trans [OF r0 this z] show ?thesis .
    qed
    have pa: "cross_at s p a = 0" if "a \<in> set seen" for a
      using ap [OF that] cross_at_flip [of s p a] by simp
    show ?thesis
      using all ap pa by auto
  qed
  show ?thesis
    unfolding hull_inv_def e using s1 s2 s3 s4 by blast
qed

lemma hull_inv_fold:
  assumes "sorted_wrt (\<lambda>a b. cross_at s a b \<ge> 0) (seen @ rest)"
    and "\<forall>q \<in> set (seen @ rest). row_before s q"
    and "hull_inv s seen h"
  shows "hull_inv s (seen @ rest) (fold (\<lambda>p h. hull_pop h p @ [p]) rest h)"
  using assms
proof (induction rest arbitrary: seen h)
  case Nil
  then show ?case by simp
next
  case (Cons p rest)
  have "hull_inv s (seen @ [p]) (hull_pop h p @ [p])"
    using Cons.prems by (intro hull_inv_step) (simp_all add: sorted_wrt_append)
  moreover have "sorted_wrt (\<lambda>a b. cross_at s a b \<ge> 0) ((seen @ [p]) @ rest)"
    "\<forall>q \<in> set ((seen @ [p]) @ rest). row_before s q"
    using Cons.prems by simp_all
  ultimately have "hull_inv s ((seen @ [p]) @ rest)
      (fold (\<lambda>p h. hull_pop h p @ [p]) rest (hull_pop h p @ [p]))"
    by (intro Cons.IH)
  then show ?case by simp
qed

lemma hull_inv_start: "hull_inv s [q] [s, q]"
  by (simp add: hull_inv_def)

lemma sort_key_cross:
  assumes "\<forall>q \<in> set ps. row_before s q"
  shows "sorted_wrt (\<lambda>a b. cross_at s a b \<ge> 0) (sort_key (polar_angle s) ps)"
proof -
  have "sorted (map (polar_angle s) (sort_key (polar_angle s) ps))"
    by (rule sorted_sort_key)
  then have "sorted_wrt (\<lambda>a b. polar_angle s a \<le> polar_angle s b) (sort_key (polar_angle s) ps)"
    by (simp add: sorted_wrt_map)
  then show ?thesis
  proof (rule sorted_wrt_mono_rel [rotated])
    fix a b
    assume "a \<in> set (sort_key (polar_angle s) ps)" "b \<in> set (sort_key (polar_angle s) ps)"
      "polar_angle s a \<le> polar_angle s b"
    with assms show "cross_at s a b \<ge> 0"
      by (intro polar_angle_sorted) simp_all
  qed
qed


lemma fold_shoelace:
  "fold (\<lambda>i area. let j = (i + 1) mod n in area + f i j - g i j) [0 ..< m] (a :: int) =
     a + (\<Sum>i = 0 ..< m. f i ((i + 1) mod n) - g i ((i + 1) mod n))"
  by (induction m) (simp_all add: Let_def)

lemma area_sum:
  "calculateContourArea c =
     \<bar>real_of_int (\<Sum>i = 0 ..< length c.
         fst (c ! i) * snd (c ! ((i + 1) mod length c)) -
         fst (c ! ((i + 1) mod length c)) * snd (c ! i)) / 2\<bar>"
  unfolding calculateContourArea_def Let_def
  using fold_shoelace [of "length c" "\<lambda>i j. fst (c ! i) * snd (c ! j)"
      "\<lambda>i j. fst (c ! j) * snd (c ! i)" "length c" 0]
  by (simp add: Let_def)

lemma sum_cyclic:
  fixes f :: "nat \<Rightarrow> int"
  assumes "n > 0"
  shows "(\<Sum>i = 0 ..< n. f ((i + 1) mod n)) = (\<Sum>i = 0 ..< n. f i)"
proof -
  from assms obtain m where n: "n = Suc m"
    by (cases n) auto
  have "(\<Sum>i = 0 ..< Suc m. f ((i + 1) mod Suc m)) = (\<Sum>i = 0 ..< m. f ((i + 1) mod Suc m)) + f 0"
    by simp
  also have "(\<Sum>i = 0 ..< m. f ((i + 1) mod Suc m)) = (\<Sum>i = 0 ..< m. f (Suc i))"
    by (rule sum.cong) simp_all
  also have "(\<Sum>i = 0 ..< m. f (Suc i)) + f 0 = (\<Sum>i = 0 ..< Suc m. f i)"
    by (induction m) simp_all
  finally show ?thesis
    by (simp add: n)
qed

lemma cross_at_shift:
  "cross_at s p q = (fst p * snd q - fst q * snd p)
     + (snd s * fst q - fst s * snd q) - (snd s * fst p - fst s * snd p)"
  by (simp add: cross_at_def algebra_simps)

lemma area_cross:
  "calculateContourArea c =
     \<bar>real_of_int (\<Sum>i = 0 ..< length c. cross_at s (c ! i) (c ! ((i + 1) mod length c))) / 2\<bar>"
proof (cases "length c = 0")
  case True
  then show ?thesis by (simp add: area_sum)
next
  case False
  let ?n = "length c"
  let ?phi = "\<lambda>i. snd s * fst (c ! i) - fst s * snd (c ! i)"
  have "(\<Sum>i = 0 ..< ?n. cross_at s (c ! i) (c ! ((i + 1) mod ?n))) =
      (\<Sum>i = 0 ..< ?n. fst (c ! i) * snd (c ! ((i + 1) mod ?n)) -
         fst (c ! ((i + 1) mod ?n)) * snd (c ! i))
      + (\<Sum>i = 0 ..< ?n. ?phi ((i + 1) mod ?n)) - (\<Sum>i = 0 ..< ?n. ?phi i)"
    by (subst cross_at_shift) (simp add: sum.distrib sum_subtractf)
  also have "(\<Sum>i = 0 ..< ?n. ?phi ((i + 1) mod ?n)) = (\<Sum>i = 0 ..< ?n. ?phi i)"
    using False by (intro sum_cyclic) simp
  finally show ?thesis
    by (simp add: area_sum)
qed

lemma hull_area_pos:
  assumes "length h' \<ge> 2" and "sorted_wrt (\<lambda>a b. cross_at s a b \<ge> 0) h'"
    and "cross_at s (h' ! 0) (h' ! 1) > 0"
  shows "calculateContourArea (s # h') > 0"
proof -
  let ?h = "s # h'"
  let ?n = "length ?h"
  let ?t = "\<lambda>i. cross_at s (?h ! i) (?h ! ((i + 1) mod ?n))"
  have nonneg: "0 \<le> ?t i" if i: "i \<in> {0 ..< ?n}" for i
  proof -
    consider (first) "i = 0" | (last) "i = length h'" | (mid) "0 < i" "i < length h'"
      using i by fastforce
    then show ?thesis
    proof cases
      case first
      then show ?thesis by simp
    next
      case last
      then show ?thesis by simp
    next
      case mid
      then have "?h ! i = h' ! (i - 1)" "?h ! ((i + 1) mod ?n) = h' ! i"
        by (simp_all add: nth_Cons')
      moreover have "cross_at s (h' ! (i - 1)) (h' ! i) \<ge> 0"
        using sorted_wrt_nth_less [OF assms(2), of "i - 1" i] mid by simp
      ultimately show ?thesis by simp
    qed
  qed
  have "?t 1 = cross_at s (h' ! 0) (h' ! 1)"
    using assms(1) by auto
  with assms(3) have "0 < ?t 1"
    by simp
  moreover have "1 \<in> {0 ..< ?n}"
    using assms(1) by auto
  ultimately have "0 < sum ?t {0 ..< ?n}"
    using nonneg by (intro sum_pos2 [of _ 1]) simp_all
  moreover define total where "total = sum ?t {0 ..< ?n}"
  ultimately have "0 < total"
    by simp
  moreover have "calculateContourArea ?h = \<bar>real_of_int total / 2\<bar>"
    unfolding total_def by (rule area_cross)
  ultimately show ?thesis
    by simp
qed

lemma nth_in_tl:
  assumes "0 < i" and "i < length c"
  shows "c ! i \<in> set (tl c)"
proof -
  from assms have "c ! i = tl c ! (i - 1)" "i - 1 < length (tl c)"
    by (simp_all add: nth_tl)
  then show ?thesis
    by (metis nth_mem)
qed

lemma line_area_zero:
  assumes "c \<noteq> []" and "\<forall>a \<in> set (tl c). \<forall>b \<in> set (tl c). cross_at (c ! 0) a b = 0"
  shows "calculateContourArea c = 0"
proof -
  let ?n = "length c"
  have "cross_at (c ! 0) (c ! i) (c ! ((i + 1) mod ?n)) = 0" if "i \<in> {0 ..< ?n}" for i
  proof (cases "i = 0 \<or> (i + 1) mod ?n = 0")
    case True
    then show ?thesis
    proof
      assume "i = 0"
      then show ?thesis by simp
    next
      assume "(i + 1) mod ?n = 0"
      then show ?thesis by simp
    qed
  next
    case False
    from that have i: "i < ?n"
      by simp
    then have "(i + 1) mod ?n < ?n"
      by (intro mod_less_divisor) auto
    with False i have "c ! i \<in> set (tl c)" "c ! ((i + 1) mod ?n) \<in> set (tl c)"
      by (simp_all add: nth_in_tl)
    with assms(2) show ?thesis by blast
  qed
  then have "(\<Sum>i = 0 ..< ?n. cross_at (c ! 0) (c ! i) (c ! ((i + 1) mod ?n))) = 0"
    by (intro sum.neutral) blast
  moreover define total where
    "total = (\<Sum>i = 0 ..< ?n. cross_at (c ! 0) (c ! i) (c ! ((i + 1) mod ?n)))"
  ultimately have "total = 0"
    by simp
  moreover have "calculateContourArea c = \<bar>real_of_int total / 2\<bar>"
    unfolding total_def by (rule area_cross)
  ultimately show ?thesis
    by simp
qed

lemma graham_area:
  assumes "length c \<ge> 3" and "\<forall>p \<in> set (tl c). row_before (c ! 0) p"
  shows "calculateContourArea
           (fold (\<lambda>p h. hull_pop h p @ [p]) (drop 1 (sort_key (polar_angle (c ! 0)) (drop 1 c)))
             [c ! 0, sort_key (polar_angle (c ! 0)) (drop 1 c) ! 0]) = 0 \<longrightarrow>
         calculateContourArea c = 0"
proof -
  define s where "s = c ! 0"
  define ps where "ps = sort_key (polar_angle s) (drop 1 c)"
  define hullPts where "hullPts = fold (\<lambda>p h. hull_pop h p @ [p]) (drop 1 ps) [s, ps ! 0]"
  have set_ps: "set ps = set (tl c)"
    by (simp add: ps_def drop_Suc)
  have "length ps = length c - 1"
    by (simp add: ps_def)
  with assms(1) have "ps \<noteq> []"
    by auto
  then have split: "ps = [ps ! 0] @ drop 1 ps"
    by (cases ps) simp_all
  have rows: "\<forall>q \<in> set ps. row_before s q"
    using assms(2) by (simp add: set_ps s_def)
  have "sorted_wrt (\<lambda>a b. cross_at s a b \<ge> 0) ps"
    unfolding ps_def using assms(2) by (intro sort_key_cross) (simp add: drop_Suc s_def)
  with rows have "hull_inv s ([ps ! 0] @ drop 1 ps) hullPts"
    unfolding hullPts_def using split by (intro hull_inv_fold hull_inv_start) simp_all
  with split have "hull_inv s ps hullPts"
    by simp
  then obtain h' where h: "hullPts = s # h'" and ne: "h' \<noteq> []"
    and sh: "sorted_wrt (\<lambda>a b. cross_at s a b \<ge> 0) h'"
    and first: "length h' \<ge> 2 \<longrightarrow> cross_at s (h' ! 0) (h' ! 1) > 0"
    and line: "length h' = 1 \<longrightarrow> (\<forall>a \<in> set ps. \<forall>b \<in> set ps. cross_at s a b = 0)"
    by (auto simp: hull_inv_def)
  have "calculateContourArea c = 0" if "calculateContourArea hullPts = 0"
  proof -
    have "\<not> length h' \<ge> 2"
      using hull_area_pos [OF _ sh, of ] first that h by auto
    moreover from ne have "length h' \<noteq> 0"
      by simp
    ultimately have "length h' = 1"
      by linarith
    with line have "\<forall>a \<in> set (tl c). \<forall>b \<in> set (tl c). cross_at (c ! 0) a b = 0"
      by (simp add: set_ps s_def)
    moreover from assms(1) have "c \<noteq> []"
      by auto
    ultimately show ?thesis
      by (rule line_area_zero [rotated])
  qed
  then show ?thesis
    by (simp add: hullPts_def ps_def s_def)
qed

lemma traced_hull_area:
  assumes "c \<in> set (findContours binary width height)"
  shows "\<exists>hullPts. calculateConvexHull c = Some (c, hullPts) \<and>
           (calculateContourArea hullPts = 0 \<longrightarrow> calculateContourArea c = 0)"
proof -
  have l: "length c > 2"
    using findContours_invariant [of binary width height] assms by blast
  from findContours_start [OF assms] have "\<forall>p \<in> set (tl c). row_before (c ! 0) p"
    by (auto simp: hd_conv_nth)
  with l have "calculateContourArea
           (fold (\<lambda>p h. hull_pop h p @ [p]) (drop 1 (sort_key (polar_angle (c ! 0)) (drop 1 c)))
             [c ! 0, sort_key (polar_angle (c ! 0)) (drop 1 c) ! 0]) = 0 \<longrightarrow>
         calculateContourArea c = 0"
    by (intro graham_area) simp_all
  with l show ?thesis
    by (simp add: calculateConvexHull_def Let_def traced_swap_start [OF assms])
qed

text \<open>
  Claim C3. For every contour \<open>findContours\<close> returns, when the hull has the area 0 the
  contour has the area 0 as well: the solidity is then \<open>0 / 0\<close>, that is NaN, which no
  comparison accepts, so \<open>isTriangle\<close> is false whatever the number of corners, and
  nothing is thrown. The main contour has an area above \<open>contourMinArea\<close>: its hull has
  a positive area and its solidity is a positive number, so that it is never divided by 0.
\<close>

theorem hull_area_traced_contour:
  assumes "contour \<in> set (findContours binary width height)"
  shows "\<exists>hullPts. calculateConvexHull contour = Some (contour, hullPts) \<and>
     (calculateContourArea hullPts = 0 \<longrightarrow>
        calculateContourArea contour = 0 \<and>
        js_div (Num (calculateContourArea contour)) (Num (calculateContourArea hullPts)) = NaN \<and>
        (\<forall>numCorners. \<not> isTriangle numCorners
           (js_div (Num (calculateContourArea contour)) (Num (calculateContourArea hullPts))))) \<and>
     (calculateContourArea contour > contourMinArea CONFIG \<longrightarrow>
        calculateContourArea hullPts > 0 \<and>
        (\<exists>r. js_div (Num (calculateContourArea contour)) (Num (calculateContourArea hullPts)) = Num r \<and>
           0 < r))"
proof -
  from traced_hull_area [OF assms] obtain hullPts where
    h: "calculateConvexHull contour = Some (contour, hullPts)"
    and z: "calculateContourArea hullPts = 0 \<longrightarrow> calculateContourArea contour = 0"
    by blast
  have 1: "calculateContourArea contour = 0 \<and>
        js_div (Num (calculateContourArea contour)) (Num (calculateContourArea hullPts)) = NaN \<and>
        (\<forall>numCorners. \<not> isTriangle numCorners
           (js_div (Num (calculateContourArea contour)) (Num (calculateContourArea hullPts))))"
    if "calculateContourArea hullPts = 0"
    using that z by (simp add: isTriangle_def)
  have 2: "calculateContourArea hullPts > 0 \<and>
        (\<exists>r. js_div (Num (calculateContourArea contour)) (Num (calculateContourArea hullPts)) = Num r \<and>
           0 < r)"
    if "calculateContourArea contour > contourMinArea CONFIG"
  proof -
    from that have p: "calculateContourArea contour > 0"
      by (simp add: CONFIG_def)
    with z area_nonneg [of hullPts] have "calculateContourArea hullPts > 0"
      by (cases "calculateContourArea hullPts = 0") simp_all
    with p show ?thesis
      by simp
  qed
  from h 1 2 show ?thesis
    by blast
qed

lemma line_example: "findContours (replicate 15 255) 5 3 = [[(1, 1), (2, 1), (3, 1)]]"
  by code_simp

lemma block_example: "findContours (replicate 80 255) 10 8 = [block_contour]"
  by code_simp

lemma block_area: "calculateContourArea block_contour = 41 / 2"
  by code_simp

lemma line_hull:
  "calculateConvexHull [(1, 1), (2, 1), (3, 1)] = Some ([(1, 1), (2, 1), (3, 1)], [(1, 1), (3, 1)])"
proof -
  have sw: "swap_start [(1, 1), (2, 1), (3, 1)] = [(1, 1), (2, 1), (3, 1)]"
    by code_simp
  have keys: "polar_angle (1, 1) (2, 1) = 0" "polar_angle (1, 1) (3, 1) = 0"
    by (simp_all add: polar_angle_def js_atan2_def)
  have pop: "hull_pop [(1, 1), (2, 1)] (3, 1) = [(1, 1)]"
    by code_simp
  show ?thesis
    by (simp add: calculateConvexHull_def Let_def sw keys pop)
qed

lemma line_area:
  "calculateContourArea [(1, 1), (3, 1)] = 0" "calculateContourArea [(1, 1), (2, 1), (3, 1)] = 0"
  by code_simp+

text \<open>
  A white image of 5 by 3 pixels gives the contour (1,1), (2,1), (3,1), whose hull (1,1),
  (3,1) has the area 0; a white image of 10 by 8 pixels gives a contour of area 20.5.
\<close>

theorem hull_area_traced_contour_witness:
  "[(1, 1), (2, 1), (3, 1)] \<in> set (findContours (replicate 15 255) 5 3) \<and>
   calculateConvexHull [(1, 1), (2, 1), (3, 1)] = Some ([(1, 1), (2, 1), (3, 1)], [(1, 1), (3, 1)]) \<and>
   calculateContourArea [(1, 1), (3, 1)] = 0 \<and>
   js_div (Num (calculateContourArea [(1, 1), (2, 1), (3, 1)]))
     (Num (calculateContourArea [(1, 1), (3, 1)])) = NaN \<and>
   block_contour \<in> set (findContours (replicate 80 255) 10 8) \<and>
   calculateContourArea block_contour > contourMinArea CONFIG \<and>
   (\<exists>hullPts. calculateConvexHull block_contour = Some (block_contour, hullPts) \<and>
      calculateContourArea hullPts > 0)"
  using hull_area_traced_contour [of "[(1, 1), (2, 1), (3, 1)]" "replicate 15 255" 5 3]
    hull_area_traced_contour [of block_contour "replicate 80 255" 10 8]
  by (auto simp: line_example block_example block_area line_hull line_area CONFIG_def)

section \<open>approxPolyDP applied twice\<close>

lemma js_gt_trans: "js_gt a b \<Longrightarrow> js_gt b c \<Longrightarrow> js_gt a c"
  by (cases a; cases b; cases c) auto

lemma js_gt_not_NaN: "js_gt a b \<Longrightarrow> a \<noteq> NaN \<and> b \<noteq> NaN"
  by (cases a; cases b) auto

lemma js_gt_below: "\<not> js_gt d m0 \<Longrightarrow> js_gt m m0 \<Longrightarrow> d = NaN \<or> js_gt m d"
  by (cases d; cases m0; cases m) auto

lemma js_gt_above_zero: "js_gt m e \<Longrightarrow> \<not> js_gt (Num 0) e \<Longrightarrow> js_gt m (Num 0)"
  by (cases m; cases e) auto

lemma peak_unique:
  assumes "peak D a b m k" and "peak D a b m' k'"
  shows "m = m' \<and> k = k'"
proof -
  have "k = k'"
  proof (rule ccontr)
    assume "k \<noteq> k'"
    then consider "k < k'" | "k' < k" by linarith
    then show False
    proof cases
      case 1
      with assms have "D k = NaN \<or> js_gt m' (D k)" "\<not> js_gt (D k') m" "D k = m" "D k' = m'"
        "js_gt m (Num 0)"
        by (auto simp: peak_def)
      then show False
        using js_gt_not_NaN by blast
    next
      case 2
      with assms have "D k' = NaN \<or> js_gt m (D k')" "\<not> js_gt (D k) m'" "D k = m" "D k' = m'"
        "js_gt m' (Num 0)"
        by (auto simp: peak_def)
      then show False
        using js_gt_not_NaN by blast
    qed
  qed
  with assms show ?thesis
    by (auto simp: peak_def)
qed

lemma peak_not_flat: "peak D a b m k \<Longrightarrow> \<not> flat D a b"
  by (auto simp: peak_def flat_def)

text \<open>The loop of farthest, on any function of the index.\<close>

lemma farthest_loop:
  "a \<le> b \<Longrightarrow>
   (case fold (\<lambda>i (maxDist, index).
                let dist = D i
                in if js_gt dist maxDist then (dist, i) else (maxDist, index))
           [a ..< b] (Num 0, 0) of
      (m, k) \<Rightarrow> (m = Num 0 \<and> k = 0 \<and> flat D a b) \<or> peak D a b m k)"
proof (induction b)
  case 0
  then show ?case by (simp add: flat_def)
next
  case (Suc b)
  show ?case
  proof (cases "a = Suc b")
    case True
    then show ?thesis by (auto simp: flat_def)
  next
    case False
    with Suc.prems have ab: "a \<le> b" by simp
    obtain m k where st: "fold (\<lambda>i (maxDist, index).
                let dist = D i
                in if js_gt dist maxDist then (dist, i) else (maxDist, index))
           [a ..< b] (Num 0, 0) = (m, k)"
      by (cases "fold (\<lambda>i (maxDist, index).
                let dist = D i
                in if js_gt dist maxDist then (dist, i) else (maxDist, index))
           [a ..< b] (Num 0, 0)") auto
    from Suc.IH [OF ab] st have IH: "(m = Num 0 \<and> k = 0 \<and> flat D a b) \<or> peak D a b m k"
      by simp
    have step: "fold (\<lambda>i (maxDist, index).
                let dist = D i
                in if js_gt dist maxDist then (dist, i) else (maxDist, index))
           [a ..< Suc b] (Num 0, 0) = (if js_gt (D b) m then (D b, b) else (m, k))"
      using ab st by (simp add: Let_def)
    show ?thesis
    proof (cases "js_gt (D b) m")
      case True
      have "peak D a (Suc b) (D b) b"
        using IH
      proof
        assume f: "m = Num 0 \<and> k = 0 \<and> flat D a b"
        with True ab show ?thesis
          using js_gt_below [of _ "Num 0" "D b"] by (auto simp: peak_def flat_def)
      next
        assume p: "peak D a b m k"
        have gt0: "js_gt (D b) (Num 0)"
          using p True js_gt_trans by (auto simp: peak_def)
        have "D i = NaN \<or> js_gt (D b) (D i)" if "a \<le> i" "i < b" for i
        proof -
          consider "i < k" | "i = k" | "k < i" by linarith
          then show ?thesis
          proof cases
            case 1
            with p that have "D i = NaN \<or> js_gt m (D i)" by (auto simp: peak_def)
            with True show ?thesis using js_gt_trans by blast
          next
            case 2
            with p True show ?thesis by (auto simp: peak_def)
          next
            case 3
            with p that have "\<not> js_gt (D i) m" by (auto simp: peak_def)
            with True show ?thesis using js_gt_below by blast
          qed
        qed
        with gt0 ab show ?thesis
          by (auto simp: peak_def)
      qed
      with True step show ?thesis by simp
    next
      case False
      have "(m = Num 0 \<and> k = 0 \<and> flat D a (Suc b)) \<or> peak D a (Suc b) m k"
        using IH
      proof
        assume "m = Num 0 \<and> k = 0 \<and> flat D a b"
        with False show ?thesis
          by (auto simp: flat_def less_Suc_eq)
      next
        assume "peak D a b m k"
        with False show ?thesis
          by (auto simp: peak_def less_Suc_eq)
      qed
      with False step show ?thesis by simp
    qed
  qed
qed

lemma farthest_cases:
  assumes "length c > 2" and "farthest c = (m, k)"
  shows "(m = Num 0 \<and> k = 0 \<and> flat (dist_at c) 1 (length c - 1)) \<or>
         peak (dist_at c) 1 (length c - 1) m k"
  using farthest_loop [of 1 "length c - 1" "dist_at c"] assms
  by (simp add: farthest_def dist_at_def Let_def)

lemma farthest_peak:
  assumes "length c > 2" and "peak (dist_at c) 1 (length c - 1) m k"
  shows "farthest c = (m, k)"
proof -
  obtain m' k' where f: "farthest c = (m', k')"
    by (cases "farthest c")
  from farthest_cases [OF assms(1) f] peak_not_flat [OF assms(2)]
  have "peak (dist_at c) 1 (length c - 1) m' k'"
    by blast
  from peak_unique [OF assms(2) this] f show ?thesis
    by simp
qed

lemma inner_iff: "p \<in> set (inner c) \<longleftrightarrow> (\<exists>i. 1 \<le> i \<and> i + 1 < length c \<and> c ! i = p)"
proof -
  have "inner c = map (\<lambda>i. c ! i) [1 ..< length c - 1]"
    by (auto simp: inner_def list_eq_iff_nth_eq nth_butlast nth_tl)
  then have "set (inner c) = (\<lambda>i. c ! i) ` {1 ..< length c - 1}"
    by simp
  then show ?thesis
    by (force simp: image_iff)
qed

lemma inner_take:
  assumes "k < length c"
  shows "p \<in> set (inner (take (k + 1) c)) \<longleftrightarrow> (\<exists>i. 1 \<le> i \<and> i < k \<and> c ! i = p)"
proof -
  have "length (take (k + 1) c) = k + 1"
    using assms by simp
  then have "p \<in> set (inner (take (k + 1) c)) \<longleftrightarrow>
      (\<exists>i. 1 \<le> i \<and> i + 1 < k + 1 \<and> take (k + 1) c ! i = p)"
    unfolding inner_iff by simp
  also have "\<dots> \<longleftrightarrow> (\<exists>i. 1 \<le> i \<and> i < k \<and> c ! i = p)"
    by (intro ex_cong1) auto
  finally show ?thesis .
qed

lemma inner_drop:
  assumes "k < length c"
  shows "p \<in> set (inner (drop k c)) \<longleftrightarrow> (\<exists>i. k < i \<and> i + 1 < length c \<and> c ! i = p)"
proof
  assume "p \<in> set (inner (drop k c))"
  then obtain i where "1 \<le> i" "i + 1 < length (drop k c)" "drop k c ! i = p"
    unfolding inner_iff by blast
  then have "k < k + i \<and> (k + i) + 1 < length c \<and> c ! (k + i) = p"
    using assms by auto
  then show "\<exists>i. k < i \<and> i + 1 < length c \<and> c ! i = p"
    by blast
next
  assume "\<exists>i. k < i \<and> i + 1 < length c \<and> c ! i = p"
  then obtain i where i: "k < i" "i + 1 < length c" "c ! i = p"
    by blast
  then have "1 \<le> i - k \<and> (i - k) + 1 < length (drop k c) \<and> drop k c ! (i - k) = p"
    by auto
  then show "p \<in> set (inner (drop k c))"
    unfolding inner_iff by blast
qed

text \<open>The two halves put together: where the points of the result come from.\<close>

lemma join_nth_left:
  assumes "i < length fh - 1"
  shows "(butlast fh @ sh) ! i = fh ! i"
  using assms by (simp add: nth_append nth_butlast)

lemma join_nth_right: "(butlast fh @ sh) ! (length fh - 1 + j) = sh ! j"
  by (simp add: nth_append)

lemma join_take:
  assumes "length fh \<ge> 2" and "sh \<noteq> []" and "sh ! 0 = last fh"
  shows "take (length fh - 1 + 1) (butlast fh @ sh) = fh"
proof -
  have "fh \<noteq> []"
    using assms(1) by auto
  have "take (length fh - 1 + 1) (butlast fh @ sh) = butlast fh @ take 1 sh"
    by simp
  also have "take 1 sh = [last fh]"
    using assms(2,3) by (cases sh) auto
  finally show ?thesis
    using \<open>fh \<noteq> []\<close> by simp
qed

lemma join_cases:
  assumes "length fh \<ge> 2" and "length sh \<ge> 2" and "1 \<le> i"
    and "i + 1 < length (butlast fh @ sh)"
  shows "(i < length fh - 1 \<and> (butlast fh @ sh) ! i \<in> set (inner fh)) \<or>
         (i = length fh - 1 \<and> (butlast fh @ sh) ! i = sh ! 0) \<or>
         (length fh - 1 < i \<and> (butlast fh @ sh) ! i \<in> set (inner sh))"
proof -
  let ?K = "length fh - 1"
  consider "i < ?K" | "i = ?K" | "?K < i" by linarith
  then show ?thesis
  proof cases
    case 1
    then have "(butlast fh @ sh) ! i = fh ! i"
      by (rule join_nth_left)
    moreover have "fh ! i \<in> set (inner fh)"
      unfolding inner_iff using 1 assms(3) by (intro exI [of _ i]) auto
    ultimately show ?thesis
      using 1 by simp
  next
    case 2
    then show ?thesis
      using join_nth_right [of fh sh 0] by simp
  next
    case 3
    then have "(butlast fh @ sh) ! i = sh ! (i - ?K)"
      using join_nth_right [of fh sh "i - ?K"] by simp
    moreover have "sh ! (i - ?K) \<in> set (inner sh)"
      unfolding inner_iff using 3 assms(4) by (intro exI [of _ "i - ?K"]) auto
    ultimately show ?thesis
      using 3 by simp
  qed
qed

lemma approx_short: "length c \<le> 2 \<Longrightarrow> approxPolyDP c e = Some c"
  by (subst approxPolyDP.simps) simp

lemma simplified_short:
  assumes "length c \<le> 2"
  shows "simplified c e c"
  using assms by (auto simp: simplified_def stuck_def approx_short)

lemma simplified_ends:
  assumes "length c > 2" and "farthest c = (m, k)" and "\<not> js_gt m e"
  shows "simplified c e [c ! 0, c ! (length c - 1)]"
proof -
  have "c \<noteq> []" using assms(1) by auto
  then have "last c = c ! (length c - 1)"
    by (rule last_conv_nth)
  then show ?thesis
    using assms by (simp add: simplified_def stuck_def approx_short inner_def)
qed

lemma simplified_join:
  assumes n: "length c > 2" and f: "farthest c = (m, k)" and gt: "js_gt m e"
    and fh: "simplified (take (k + 1) c) e fh" and sh: "simplified (drop k c) e sh"
  shows "simplified c e (butlast fh @ sh)"
proof -
  let ?n = "length c" and ?K = "length fh - 1" and ?r = "butlast fh @ sh"
  have k0: "k \<noteq> 0"
  proof
    assume "k = 0"
    with sh have "\<not> stuck c e"
      by (simp add: simplified_def)
    with n f gt \<open>k = 0\<close> show False
      by (simp add: stuck_def)
  qed
  with farthest_cases [OF n f] have pk: "peak (dist_at c) 1 (?n - 1) m k"
    by blast
  then have k: "1 \<le> k" "k < ?n - 1" and mk: "dist_at c k = m" and m0: "js_gt m (Num 0)"
    and lo: "\<And>j. 1 \<le> j \<Longrightarrow> j < k \<Longrightarrow> dist_at c j = NaN \<or> js_gt m (dist_at c j)"
    and hi: "\<And>j. k < j \<Longrightarrow> j < ?n - 1 \<Longrightarrow> \<not> js_gt (dist_at c j) m"
    by (auto simp: peak_def)
  have kn: "k < ?n" using k by simp
  have lt: "length (take (k + 1) c) = k + 1" and ld: "length (drop k c) = ?n - k"
    using k by simp_all
  have cne: "c \<noteq> []" using n by auto
  have "take (k + 1) c = take k c @ [c ! k]"
    using kn by (simp add: take_Suc_conv_app_nth)
  then have lastt: "last (take (k + 1) c) = c ! k"
    by simp
  from fh lt k have fh': "approxPolyDP fh e = Some fh" "length fh \<ge> 2" "fh ! 0 = c ! 0"
    "last fh = c ! k" "set (inner fh) \<subseteq> set (inner (take (k + 1) c))"
    using lastt by (simp_all add: simplified_def)
  from sh ld k have sh': "approxPolyDP sh e = Some sh" "length sh \<ge> 2" "sh ! 0 = c ! k"
    "last sh = last c" "set (inner sh) \<subseteq> set (inner (drop k c))"
    by (simp_all add: simplified_def)
  have shne: "sh \<noteq> []" using sh'(2) by auto
  have len: "length ?r = ?K + length sh"
    by simp
  have r0: "?r ! 0 = c ! 0"
    using join_nth_left [of 0 fh sh] fh'(2,3) by simp
  have rl: "last ?r = last c"
    using shne sh'(4) by simp
  have rlast: "?r ! (length ?r - 1) = c ! (?n - 1)"
    using rl shne cne by (simp add: last_conv_nth del: length_append)
  have Afh: "\<exists>j. 1 \<le> j \<and> j < k \<and> c ! j = p" if "p \<in> set (inner fh)" for p
    using that fh'(5) inner_take [OF kn, of p] by auto
  have Ash: "\<exists>j. k < j \<and> j + 1 < ?n \<and> c ! j = p" if "p \<in> set (inner sh)" for p
    using that sh'(5) inner_drop [OF kn, of p] by auto
  have src: "(i < ?K \<and> (\<exists>j. 1 \<le> j \<and> j < k \<and> c ! j = ?r ! i)) \<or>
             (i = ?K \<and> ?r ! i = c ! k) \<or>
             (?K < i \<and> (\<exists>j. k < j \<and> j + 1 < ?n \<and> c ! j = ?r ! i))"
    if "1 \<le> i" "i + 1 < length ?r" for i
  proof -
    from join_cases [OF fh'(2) sh'(2) that]
    consider (l) "i < ?K" "?r ! i \<in> set (inner fh)"
      | (m) "i = ?K" "?r ! i = sh ! 0"
      | (h) "?K < i" "?r ! i \<in> set (inner sh)"
      by blast
    then show ?thesis
    proof cases
      case l
      with Afh [OF l(2)] show ?thesis by simp
    next
      case m
      with sh'(3) show ?thesis by simp
    next
      case h
      with Ash [OF h(2)] show ?thesis by simp
    qed
  qed
  have sub: "set (inner ?r) \<subseteq> set (inner c)"
  proof
    fix p assume "p \<in> set (inner ?r)"
    then obtain i where i: "1 \<le> i" "i + 1 < length ?r" "?r ! i = p"
      unfolding inner_iff by blast
    from src [OF i(1,2)]
    consider (l) j where "1 \<le> j" "j < k" "c ! j = ?r ! i"
      | (m) "?r ! i = c ! k"
      | (h) j where "k < j" "j + 1 < ?n" "c ! j = ?r ! i"
      by blast
    then have "\<exists>j. 1 \<le> j \<and> j + 1 < ?n \<and> c ! j = p"
    proof cases
      case l
      with k i(3) show ?thesis by (intro exI [of _ j]) simp
    next
      case m
      with k i(3) show ?thesis by (intro exI [of _ k]) simp
    next
      case h
      with k i(3) show ?thesis by (intro exI [of _ j]) simp
    qed
    then show "p \<in> set (inner c)"
      unfolding inner_iff .
  qed
  have d: "dist_at ?r i = dist_at c j" if "c ! j = ?r ! i" for i j
    using that r0 rlast by (simp add: dist_at_def)
  have "peak (dist_at ?r) 1 (length ?r - 1) m ?K"
    unfolding peak_def
  proof (intro conjI allI impI)
    show "1 \<le> ?K" using fh'(2) by simp
    show "?K < length ?r - 1" using sh'(2) by simp
    show "dist_at ?r ?K = m"
      using d [of k ?K] join_nth_right [of fh sh 0] sh'(3) mk by simp
    show "js_gt m (Num 0)" by (rule m0)
  next
    fix i assume i: "1 \<le> i \<and> i < ?K"
    then have "i + 1 < length ?r" using sh'(2) by simp
    from src [OF _ this] i obtain j where "1 \<le> j" "j < k" "c ! j = ?r ! i"
      by auto
    with lo [of j] d [of j i] show "dist_at ?r i = NaN \<or> js_gt m (dist_at ?r i)"
      by simp
  next
    fix i assume i: "?K < i \<and> i < length ?r - 1"
    then have "1 \<le> i" "i + 1 < length ?r" by (simp, simp, linarith)
    from src [OF this] i obtain j where "k < j" "j + 1 < ?n" "c ! j = ?r ! i"
      by auto
    with hi [of j] d [of j i] show "\<not> js_gt (dist_at ?r i) m"
      by simp
  qed
  moreover have long: "length ?r > 2"
    using fh'(2) sh'(2) by simp
  ultimately have fr: "farthest ?r = (m, ?K)"
    by (intro farthest_peak)
  have tk: "take (?K + 1) ?r = fh"
    using join_take [OF fh'(2) shne] sh'(3) fh'(4) by simp
  have dr: "drop ?K ?r = sh"
    by simp
  have nle: "\<not> length ?r \<le> 2"
    using long by simp
  have "approxPolyDP ?r e =
      Option.bind (approxPolyDP (take (?K + 1) ?r) e) (\<lambda>firstHalf.
      Option.bind (approxPolyDP (drop ?K ?r) e) (\<lambda>secondHalf.
        Some (butlast firstHalf @ secondHalf)))"
    by (subst approxPolyDP.simps) (simp only: nle if_False fr prod.case gt if_True)
  also have "\<dots> = Some ?r"
    unfolding tk dr by (simp add: fh'(1) sh'(1))
  finally have "approxPolyDP ?r e = Some ?r" .
  moreover have "\<not> stuck c e"
    using f k0 by (simp add: stuck_def)
  ultimately show ?thesis
    using n long r0 rl sub by (simp add: simplified_def del: length_append)
qed

lemma approx_simplified:
  assumes "approxPolyDP c e = Some r"
  shows "simplified c e r"
proof (rule approxPolyDP.raw_induct [where P = simplified, OF _ assms], goal_cases)
  case (1 f contour epsilon r)
  show ?case
  proof (cases "length contour \<le> 2")
    case True
    with 1(2) show ?thesis
      by (simp add: simplified_short)
  next
    case False
    then have n: "length contour > 2" by simp
    obtain m k where fk: "farthest contour = (m, k)"
      by (cases "farthest contour")
    show ?thesis
    proof (cases "js_gt m epsilon")
      case gt: False
      with 1(2) n fk have "r = [contour ! 0, contour ! (length contour - 1)]"
        by simp
      with simplified_ends [OF n fk gt] show ?thesis
        by simp
    next
      case gt: True
      with 1(2) n fk obtain fh sh where
        "f (take (k + 1) contour) epsilon = Some fh" "f (drop k contour) epsilon = Some sh"
        "r = butlast fh @ sh"
        by (auto simp: bind_eq_Some_conv)
      with simplified_join [OF n fk gt 1(1) 1(1)] show ?thesis
        by simp
    qed
  qed
qed

lemma approx_returns:
  assumes "\<not> js_gt (Num 0) e"
  shows "\<exists>r. approxPolyDP c e = Some r"
proof (induction c rule: length_induct)
  case (1 c)
  show ?case
  proof (cases "length c \<le> 2")
    case True
    then show ?thesis
      by (simp add: approx_short)
  next
    case False
    then have n: "length c > 2" by simp
    obtain m k where fk: "farthest c = (m, k)"
      by (cases "farthest c")
    show ?thesis
    proof (cases "js_gt m e")
      case gt: False
      with False fk show ?thesis
        by (subst approxPolyDP.simps) simp
    next
      case gt: True
      then have "js_gt m (Num 0)"
        using assms by (rule js_gt_above_zero)
      then have "\<not> (m = Num 0 \<and> k = 0 \<and> flat (dist_at c) 1 (length c - 1))"
        by auto
      with farthest_cases [OF n fk] have "peak (dist_at c) 1 (length c - 1) m k"
        by blast
      then have k: "1 \<le> k" "k < length c - 1"
        by (auto simp: peak_def)
      then have "length (take (k + 1) c) < length c" "length (drop k c) < length c"
        by simp_all
      with 1 obtain fh sh where "approxPolyDP (take (k + 1) c) e = Some fh"
        "approxPolyDP (drop k c) e = Some sh"
        by blast
      with False fk gt show ?thesis
        by (subst approxPolyDP.simps) simp
    qed
  qed
qed

text \<open>With a negative epsilon a straight chain of three points is simplified without end.\<close>

lemma approxPolyDP_negative_epsilon:
  "approxPolyDP [(0, 0), (1, 0), (2, 0)] (Num (- 1)) = None"
proof -
  have "farthest [(0, 0), (1, 0), (2, 0)] = (Num 0, 0)"
    by (simp add: farthest_def perpendicularDistance_def)
  then have "stuck [(0, 0), (1, 0), (2, 0)] (Num (- 1))"
    by (simp add: stuck_def)
  then show ?thesis
    using approx_simplified [of "[(0, 0), (1, 0), (2, 0)]" "Num (- 1)"]
    by (cases "approxPolyDP [(0, 0), (1, 0), (2, 0)] (Num (- 1))") (auto simp: simplified_def)
qed

text \<open>
  Claim C8. For every contour and every epsilon, \<open>approxPolyDP\<close> applied with the same
  epsilon to a result of \<open>approxPolyDP\<close> returns that result. A call with an epsilon that
  is not negative returns a result.
\<close>

theorem approxPolyDP_idempotent:
  "(\<forall>r. approxPolyDP c e = Some r \<longrightarrow> approxPolyDP r e = Some r) \<and>
   (\<not> js_gt (Num 0) e \<longrightarrow> (\<exists>r. approxPolyDP c e = Some r))"
  using approx_simplified [of c e] approx_returns [of e c]
  by (auto simp: simplified_def)

lemma approx_example_far: "farthest [(0, 0), (1, 1), (2, 0)] = (Num 1, 1)"
  by (simp add: farthest_def perpendicularDistance_def)

lemma approx_example:
  "approxPolyDP [(0, 0), (1, 1), (2, 0)] (Num 2) = Some [(0, 0), (2, 0)]"
  "approxPolyDP [(0, 0), (1, 1), (2, 0)] (Num 0.5) = Some [(0, 0), (1, 1), (2, 0)]"
  by (subst approxPolyDP.simps, simp add: approx_example_far approx_short)+

theorem approxPolyDP_idempotent_witness:
  "approxPolyDP [(0, 0), (1, 1), (2, 0)] (Num 2) = Some [(0, 0), (2, 0)] \<and>
   approxPolyDP [(0, 0), (2, 0)] (Num 2) = Some [(0, 0), (2, 0)] \<and>
   approxPolyDP [(0, 0), (1, 1), (2, 0)] (Num 0.5) = Some [(0, 0), (1, 1), (2, 0)] \<and>
   \<not> js_gt (Num 0) (Num 2)"
  using approxPolyDP_idempotent [of "[(0, 0), (1, 1), (2, 0)]" "Num 2"] approx_example
  by simp

section \<open>The result of detectShape\<close>

lemma largest_member:
  assumes "validContours \<noteq> []"
  shows "largest validContours \<in> set validContours"
proof -
  have "foldl (\<lambda>prev current.
             if calculateContourArea current > calculateContourArea prev then current else prev)
       a cs \<in> insert a (set cs)" for a cs
    by (induction cs arbitrary: a) auto
  from this [of "hd validContours" "tl validContours"] assms show ?thesis
    by (cases validContours) (auto simp: largest_def)
qed

lemma classify_returns:
  assumes "length mainContour \<ge> 2"
  shows "\<exists>res r. classify mainContour = Some res \<and> confidence res = Num r \<and>
           0 \<le> r \<and> r \<le> 1 \<and> shape res \<noteq> Unknown"
proof -
  obtain c' h where hull: "calculateConvexHull mainContour = Some (c', h)"
    using assms by (simp add: calculateConvexHull_def Let_def)
  let ?eps = "Num (triangleTolerance CONFIG * calculateContourPerimeter mainContour)"
  have "\<not> js_gt (Num 0) ?eps"
    using perimeter_nonneg [of mainContour] by (simp add: CONFIG_def)
  from approx_returns [OF this] obtain poly where poly: "approxPolyDP c' ?eps = Some poly"
    by blast
  let ?circ = "calculateCircularity (calculateContourArea mainContour)
      (calculateContourPerimeter mainContour)"
  let ?sol = "js_div (Num (calculateContourArea mainContour)) (Num (calculateContourArea h))"
  from decide_range [of ?circ ?sol "length poly"] obtain s r
    where "decide ?circ ?sol (length poly) = (s, Num r)" "s \<noteq> Unknown" "0 \<le> r" "r \<le> 1"
    by blast
  then show ?thesis
    by (simp add: classify_def Let_def hull poly)
qed

text \<open>The label and the confidence of a result with metrics are those \<open>decide\<close> gives
  on these metrics.\<close>

lemma classify_decides:
  assumes "classify mainContour = Some res"
  shows "\<exists>m. metrics res = Some m \<and>
           (shape res, confidence res) = decide (m_circularity m) (m_solidity m) (m_numCorners m)"
  using assms
  by (auto simp: classify_def Let_def split: option.splits prod.splits)

lemma detectShape_decides:
  assumes "detectShape data width height = Some res"
  shows "(shape res = Unknown \<and> confidence res = Num 0 \<and> metrics res = None) \<or>
         (\<exists>m. metrics res = Some m \<and>
            (shape res, confidence res) =
              decide (m_circularity m) (m_solidity m) (m_numCorners m))"
proof (cases "filter (\<lambda>contour. calculateContourArea contour > contourMinArea CONFIG)
      (findContours (binarize data width height) width height) = []")
  case True
  with assms show ?thesis
    by (auto simp: detectShape_def Let_def)
next
  case False
  with assms classify_decides show ?thesis
    by (auto simp: detectShape_def Let_def)
qed

text \<open>The metrics of a result: the perimeter is positive, the circularity and the
  solidity are numbers, whatever the pixel data.\<close>

lemma classify_metrics:
  assumes "c \<in> set (findContours binary width height)"
    and "calculateContourArea c > contourMinArea CONFIG"
    and "classify c = Some res"
  shows "\<exists>m. metrics res = Some m \<and> m_perimeter m > 0 \<and>
           (\<exists>r. m_circularity m = Num r \<and> 0 \<le> r) \<and> (\<exists>r. m_solidity m = Num r \<and> 0 < r)"
proof -
  from traced_hull_area [OF assms(1)] obtain hullPts where
    h: "calculateConvexHull c = Some (c, hullPts)"
    and z: "calculateContourArea hullPts = 0 \<longrightarrow> calculateContourArea c = 0"
    by blast
  have a: "calculateContourArea c > 0"
    using assms(2) by (simp add: CONFIG_def)
  with z area_nonneg [of hullPts] have ha: "calculateContourArea hullPts > 0"
    by (cases "calculateContourArea hullPts = 0") simp_all
  have p: "calculateContourPerimeter c > 0"
    by (rule traced_perimeter_pos [OF assms(1)])
  have cn: "0 \<le> 4 * pi * calculateContourArea c /
      (calculateContourPerimeter c * calculateContourPerimeter c)"
    using p a by simp
  have sn: "0 < calculateContourArea c / calculateContourArea hullPts"
    using a ha by simp
  from assms(3) show ?thesis
    using p ha cn sn
    by (auto simp: classify_def Let_def h calculateCircularity_def split: option.splits prod.splits)
qed

lemma detectShape_metrics:
  assumes "detectShape data width height = Some res" and "metrics res = Some m"
  shows "m_perimeter m > 0 \<and> (\<exists>r. m_circularity m = Num r \<and> 0 \<le> r) \<and>
         (\<exists>r. m_solidity m = Num r \<and> 0 < r)"
proof -
  let ?cs = "findContours (binarize data width height) width height"
  let ?valid = "filter (\<lambda>contour. calculateContourArea contour > contourMinArea CONFIG) ?cs"
  show ?thesis
  proof (cases "?valid = []")
    case True
    with assms show ?thesis
      by (auto simp: detectShape_def Let_def)
  next
    case False
    from largest_member [OF False] have "largest ?valid \<in> set ?cs"
      and "calculateContourArea (largest ?valid) > contourMinArea CONFIG"
      by simp_all
    moreover from assms(1) False have "classify (largest ?valid) = Some res"
      by (simp add: detectShape_def Let_def)
    ultimately show ?thesis
      using classify_metrics assms(2) by fastforce
  qed
qed

text \<open>
  Claim C5. For every pixel buffer \<open>detectShape\<close> returns a result, its confidence is a
  number between 0 and 1, and it is 0 when the shape is unknown.
\<close>

theorem detectShape_confidence:
  "\<exists>res r. detectShape data width height = Some res \<and> confidence res = Num r \<and>
     0 \<le> r \<and> r \<le> 1 \<and> (shape res = Unknown \<longrightarrow> r = 0)"
proof -
  let ?valid = "filter (\<lambda>contour. calculateContourArea contour > contourMinArea CONFIG)
      (findContours (binarize data width height) width height)"
  show ?thesis
  proof (cases "?valid = []")
    case True
    then show ?thesis
      by (simp add: detectShape_def Let_def)
  next
    case False
    from largest_member [OF False] have "largest ?valid \<in>
        set (findContours (binarize data width height) width height)"
      by simp
    with findContours_invariant [of "binarize data width height" width height]
    have "length (largest ?valid) \<ge> 2"
      by fastforce
    from classify_returns [OF this] False show ?thesis
      by (auto simp: detectShape_def Let_def)
  qed
qed

lemma detectShape_blank:
  "detectShape (replicate 36 0) 3 3 = Some \<lparr> shape = Unknown, confidence = Num 0, metrics = None \<rparr>"
proof -
  have "findContours (binarize (replicate 36 0) 3 3) 3 3 = []"
    by code_simp
  then show ?thesis
    by (simp add: detectShape_def)
qed

theorem detectShape_confidence_witness:
  "detectShape (replicate 36 0) 3 3 =
     Some \<lparr> shape = Unknown, confidence = Num 0, metrics = None \<rparr>"
  using detectShape_confidence [of "replicate 36 0" 3 3]
  by (simp add: detectShape_blank)

end
